theory Spec2Isabelle
  imports Complex_Main "HOL-Library.Word" "HOL-Library.Sublist"
begin

section \<open>JavaScript strings\<close>

text \<open>
  A JavaScript string is a sequence of UTF-16 code units; \<open>length\<close>, \<open>slice\<close>,
  \<open>split\<close>, \<open>includes\<close> and \<open>trim\<close> all count and compare code units.
  The literal helper \<open>js\<close> embeds an ASCII literal.
\<close>

type_synonym code_unit = "16 word"
type_synonym jsstring = "code_unit list"

definition js :: "string \<Rightarrow> jsstring" where
  "js s = map (\<lambda>c. word_of_nat (of_char c)) s"

text \<open>
  The class \<open>\s\<close> of a regular expression, which is also what \<open>trim\<close> strips:
  the WhiteSpace and LineTerminator code points of ECMAScript.
\<close>

definition is_space :: "code_unit \<Rightarrow> bool" where
  "is_space c \<longleftrightarrow>
     c \<in> {0x09, 0x0A, 0x0B, 0x0C, 0x0D, 0x20, 0xA0, 0x1680, 0x2028, 0x2029,
          0x202F, 0x205F, 0x3000, 0xFEFF}
     \<or> (0x2000 \<le> c \<and> c \<le> 0x200A)"

definition newline :: code_unit where
  "newline = 0x0A"

text \<open>\<open>s.trim()\<close>\<close>

definition js_trim :: "jsstring \<Rightarrow> jsstring" where
  "js_trim s = rev (dropWhile is_space (rev (dropWhile is_space s)))"

text \<open>
  \<open>s.slice(a, b)\<close>: a negative position counts from the end, both positions are
  clamped to the string, and an empty span gives the empty string.
\<close>

definition js_slice :: "jsstring \<Rightarrow> int \<Rightarrow> int \<Rightarrow> jsstring" where
  "js_slice s a b =
     (let len = int (length s);
          from = (if a < 0 then max (len + a) 0 else min a len);
          to = (if b < 0 then max (len + b) 0 else min b len)
      in take (nat (to - from)) (drop (nat from) s))"

text \<open>\<open>s.slice(a)\<close>: the end defaults to the length.\<close>

definition js_slice_from :: "jsstring \<Rightarrow> int \<Rightarrow> jsstring" where
  "js_slice_from s a = js_slice s a (int (length s))"

text \<open>\<open>s.includes(sub)\<close>: \<open>sub\<close> occurs in \<open>s\<close> as a contiguous block.\<close>

fun js_includes :: "jsstring \<Rightarrow> jsstring \<Rightarrow> bool" where
  "js_includes [] sub = (sub = [])"
| "js_includes (c # cs) sub = (prefix sub (c # cs) \<or> js_includes cs sub)"

text \<open>
  \<open>s.split('\n')\<close>: the pieces between the separators, empty pieces included;
  the empty string gives one empty piece.
\<close>

fun split_newline :: "jsstring \<Rightarrow> jsstring list" where
  "split_newline [] = [[]]"
| "split_newline (c # cs) =
     (if c = newline then [] # split_newline cs
      else (case split_newline cs of
              [] \<Rightarrow> [[c]]
            | l # ls \<Rightarrow> (c # l) # ls))"

text \<open>\<open>parts.join('\n')\<close>, used to state what \<open>split\<close> computes.\<close>

fun join_newline :: "jsstring list \<Rightarrow> jsstring" where
  "join_newline [] = []"
| "join_newline [l] = l"
| "join_newline (l # ls) = l @ newline # join_newline ls"

section \<open>Paragraph segmenter\<close>

text \<open>
  Reader.tsx, the effect on \<open>content\<close>:
  \<^verbatim>\<open>const splitText = content.split('\n').filter(line => line.trim().length > 0);\<close>
\<close>

definition splitText :: "jsstring \<Rightarrow> jsstring list" where
  "splitText content = filter (\<lambda>line. length (js_trim line) > 0) (split_newline content)"

section \<open>Settings and highlights (types.ts)\<close>

datatype ThemeMode = LIGHT | DARK | SEPIA | HIGH_CONTRAST | INK

datatype FontFamily = SANS | SERIF | MONO | SYSTEM

record ReaderSettings =
  fontSize :: int
  lineHeight :: real
  letterSpacing :: real
  theme :: ThemeMode
  fontFamily :: FontFamily
  isFocusMode :: bool
  isLoupeActive :: bool
  isHoverZoom :: bool
  isBionicReading :: bool
  autoScrollSpeed :: int
  speechVoiceURI :: jsstring

text \<open>
  \<^verbatim>\<open>interface Highlight { start: number; end: number; text: string; id: string }\<close>
  The offsets are whatever numbers the caller passes; nothing in the type bounds them.
\<close>

record Highlight =
  hl_start :: int
  hl_end :: int
  hl_text :: jsstring
  hl_id :: jsstring

definition DEFAULT_SETTINGS :: ReaderSettings where
  "DEFAULT_SETTINGS =
     \<lparr>fontSize = 22, lineHeight = 1.8, letterSpacing = 0.02, theme = LIGHT,
      fontFamily = SANS, isFocusMode = False, isLoupeActive = False, isHoverZoom = True,
      isBionicReading = False, autoScrollSpeed = 0, speechVoiceURI = []\<rparr>"

section \<open>Bionic reading (Reader.tsx, applyBionicReading)\<close>

text \<open>
  \<open>text.split(/(\s+)/)\<close>: the separator is a maximal run of whitespace, found at the
  first position where one starts, and because of the capturing group the separators
  are kept in the result. The result alternates token, separator, token, ...; the first
  and the last token are empty when the string starts or ends with whitespace, and the
  empty string gives one empty token.
\<close>

function split_whitespace :: "jsstring \<Rightarrow> jsstring list" where
  "split_whitespace s =
     (if dropWhile (\<lambda>c. \<not> is_space c) s = [] then [takeWhile (\<lambda>c. \<not> is_space c) s]
      else takeWhile (\<lambda>c. \<not> is_space c) s
           # takeWhile is_space (dropWhile (\<lambda>c. \<not> is_space c) s)
           # split_whitespace (dropWhile is_space (dropWhile (\<lambda>c. \<not> is_space c) s)))"
  by pat_completeness auto
termination
proof (relation "measure length")
  show "wf (measure length)" by simp
next
  fix s :: jsstring
  assume ne: "dropWhile (\<lambda>c. \<not> is_space c) s \<noteq> []"
  let ?r = "dropWhile (\<lambda>c. \<not> is_space c) s"
  from ne have sp: "is_space (hd ?r)"
    using hd_dropWhile [of "\<lambda>c. \<not> is_space c" s] by simp
  from ne obtain x r' where r: "?r = x # r'" by (cases ?r) auto
  with sp have "dropWhile is_space ?r = dropWhile is_space r'" by simp
  then have "length (dropWhile is_space ?r) \<le> length r'"
    by (simp add: length_dropWhile_le)
  also have "\<dots> < length ?r" using r by simp
  also have "\<dots> \<le> length s" by (rule length_dropWhile_le)
  finally show "(dropWhile is_space ?r, s) \<in> measure length" by simp
qed

text \<open>
  The fixation heuristic. \<open>Math.ceil(length * 0.4)\<close> is computed on doubles: the double
  nearest to 0.4 exceeds it by the relative error \<open>2^-54\<close>, so for a multiple of five
  the product rounds back to the exact integer and otherwise stays strictly between
  two integers; for every string length the result is the integer ceiling of
  \<open>2 * length / 5\<close>.
\<close>

definition boldLength :: "nat \<Rightarrow> nat" where
  "boldLength len =
     (if len = 1 then 1
      else if len \<le> 3 then 1
      else if len \<le> 5 then 2
      else (2 * len + 4) div 5)"

text \<open>
  One element of the array that \<open>applyBionicReading\<close> returns: a whitespace part is
  returned as the string itself, any other part as a fragment of a bold prefix
  (\<open><b>\<close>) and a dimmed suffix (\<open><span className="opacity-60">\<close>).
\<close>

datatype piece = Str jsstring | Fragment jsstring jsstring

text \<open>The callback of \<open>map\<close>; \<open>/^\s+$/.test(part)\<close> holds of a non-empty all-whitespace part.\<close>

definition bionic_part :: "jsstring \<Rightarrow> piece" where
  "bionic_part part =
     (if part \<noteq> [] \<and> list_all is_space part then Str part
      else Fragment (js_slice part 0 (int (boldLength (length part))))
                    (js_slice_from part (int (boldLength (length part)))))"

text \<open>What a run holds: the string itself, or the array of bionic pieces.\<close>

datatype content = Text jsstring | Pieces "piece list"

definition applyBionicReading :: "ReaderSettings \<Rightarrow> jsstring \<Rightarrow> content" where
  "applyBionicReading settings t =
     (if \<not> isBionicReading settings then Text t
      else Pieces (map bionic_part (split_whitespace t)))"

section \<open>Rendering a paragraph (Reader.tsx, renderParagraphContent)\<close>

text \<open>
  The nodes pushed by the walk: a \<open><span>\<close> of text outside the highlights and a
  \<open><mark key={h.id}>\<close> of highlighted text. The class names, which depend on the
  theme only, are left out.
\<close>

datatype node = Span content | Mark jsstring content

text \<open>Without highlights the content is returned bare, otherwise as the array of nodes.\<close>

datatype rendered = Bare content | Nodes "node list"

text \<open>\<open>settings.isBionicReading ? applyBionicReading(t) : t\<close>\<close>

definition styled :: "ReaderSettings \<Rightarrow> jsstring \<Rightarrow> content" where
  "styled settings t = (if isBionicReading settings then applyBionicReading settings t else Text t)"

text \<open>
  The body of \<open>sorted.forEach\<close>, with the two variables it updates, \<open>nodes\<close> and
  \<open>lastIndex\<close>, passed along.
\<close>

fun walk :: "ReaderSettings \<Rightarrow> jsstring \<Rightarrow> Highlight list \<Rightarrow> node list \<Rightarrow> int \<Rightarrow> node list \<times> int" where
  "walk settings t [] nodes lastIndex = (nodes, lastIndex)"
| "walk settings t (h # hs) nodes lastIndex =
     (if hl_start h < lastIndex then walk settings t hs nodes lastIndex
      else
        let nodes1 = (if hl_start h > lastIndex
                      then nodes @ [Span (styled settings (js_slice t lastIndex (hl_start h)))]
                      else nodes);
            nodes2 = nodes1 @ [Mark (hl_id h) (styled settings (js_slice t (hl_start h) (hl_end h)))]
        in walk settings t hs nodes2 (hl_end h))"

text \<open>
  \<open>[...paragraphHighlights].sort((a, b) => a.start - b.start)\<close> is a stable sort by
  \<open>start\<close>, as \<open>sort_key\<close> is. \<open>highlights[index]\<close> is undefined for a paragraph that
  never had a highlight.
\<close>

definition renderParagraphContent ::
  "ReaderSettings \<Rightarrow> (int \<rightharpoonup> Highlight list) \<Rightarrow> jsstring \<Rightarrow> int \<Rightarrow> rendered" where
  "renderParagraphContent settings highlights t index =
     (case highlights index of
        None \<Rightarrow> Bare (styled settings t)
      | Some paragraphHighlights \<Rightarrow>
          if length paragraphHighlights = 0 then Bare (styled settings t)
          else
            let sorted = sort_key hl_start paragraphHighlights;
                (nodes, lastIndex) = walk settings t sorted [] 0
            in Nodes (if lastIndex < int (length t)
                      then nodes @ [Span (styled settings (js_slice_from t lastIndex))]
                      else nodes))"

text \<open>The characters a rendering shows, read off the nodes in order.\<close>

fun piece_text :: "piece \<Rightarrow> jsstring" where
  "piece_text (Str w) = w"
| "piece_text (Fragment b r) = b @ r"

fun content_text :: "content \<Rightarrow> jsstring" where
  "content_text (Text t) = t"
| "content_text (Pieces ps) = concat (map piece_text ps)"

fun node_text :: "node \<Rightarrow> jsstring" where
  "node_text (Span c) = content_text c"
| "node_text (Mark k c) = content_text c"

fun rendered_text :: "rendered \<Rightarrow> jsstring" where
  "rendered_text (Bare c) = content_text c"
| "rendered_text (Nodes ns) = concat (map node_text ns)"

text \<open>The highlights of a paragraph, none when the store has no entry for it.\<close>

definition highlights_at :: "(int \<rightharpoonup> Highlight list) \<Rightarrow> int \<Rightarrow> Highlight list" where
  "highlights_at highlights index = (case highlights index of None \<Rightarrow> [] | Some hs \<Rightarrow> hs)"

section \<open>The session: App.tsx and Reader.tsx state\<close>

text \<open>
  A \<open>SpeechSynthesisUtterance\<close> as \<open>speakText\<close> builds it. Its \<open>onend\<close> and \<open>onerror\<close>
  closures capture the index spoken and the paragraph array of the render that
  submitted it, of which they read the length.
\<close>

record utterance =
  u_text :: jsstring
  u_voice :: "jsstring option"
  u_index :: int
  u_count :: nat

text \<open>The calls made on the collaborators (speech engine, DOM), in the order made.\<close>

datatype call =
    Cancel
  | Speak utterance
  | ScrollIntoView int
  | ContainerScrollBy
  | WindowScrollTo

text \<open>
  The state of \<open>App\<close> (\<open>content\<close>, \<open>settings\<close>, \<open>annotations\<close>, \<open>highlights\<close>) and of
  \<open>Reader\<close> (the \<open>useState\<close> cells and the two \<open>useRef\<close> flags), with the trace of
  calls. Paragraph indices are JavaScript numbers: \<open>-1\<close> can be stored.
\<close>

record session =
  content :: jsstring
  settings :: ReaderSettings
  annotations :: "int \<rightharpoonup> jsstring"
  highlights :: "int \<rightharpoonup> Highlight list"
  paragraphs :: "jsstring list"
  activeParagraphIndex :: "int option"
  voices :: "jsstring list"
  isSpeaking :: bool
  lastVoiceCommand :: jsstring
  isContinuousRef :: bool
  isAutoAdvancingRef :: bool
  calls :: "call list"

section \<open>Playback (Reader.tsx)\<close>

text \<open>
  \<open>paragraphRefs.current[i]?.scrollIntoView(...)\<close>: the ref exists for the paragraphs
  rendered, that is for \<open>0 \<le> i < paragraphs.length\<close>.
\<close>

definition scrollIntoView :: "int \<Rightarrow> session \<Rightarrow> session" where
  "scrollIntoView i s =
     (if 0 \<le> i \<and> i < int (length (paragraphs s))
      then s\<lparr>calls := calls s @ [ScrollIntoView i]\<rparr> else s)"

definition speakText :: "int \<Rightarrow> session \<Rightarrow> session" where
  "speakText index s =
     (if index < 0 \<or> index \<ge> int (length (paragraphs s)) then s
      else
        let utt = \<lparr>u_text = paragraphs s ! nat index,
                   u_voice = find (\<lambda>v. v = speechVoiceURI (settings s)) (voices s),
                   u_index = index,
                   u_count = length (paragraphs s)\<rparr>
        in s\<lparr>calls := calls s @ [Cancel, Speak utt], isSpeaking := True\<rparr>)"

text \<open>\<open>utterance.onend\<close> and \<open>utterance.onerror\<close>\<close>

definition utterance_onend :: "utterance \<Rightarrow> session \<Rightarrow> session" where
  "utterance_onend utt s =
     (if isContinuousRef s \<and> u_index utt < int (u_count utt) - 1
      then s\<lparr>isAutoAdvancingRef := True, activeParagraphIndex := Some (u_index utt + 1)\<rparr>
      else s\<lparr>isSpeaking := False, isContinuousRef := False\<rparr>)"

definition utterance_onerror :: "utterance \<Rightarrow> session \<Rightarrow> session" where
  "utterance_onerror utt s = s\<lparr>isSpeaking := False, isContinuousRef := False\<rparr>"

definition handleSpeakCurrent :: "session \<Rightarrow> session" where
  "handleSpeakCurrent s =
     (case activeParagraphIndex s of
        None \<Rightarrow> s
      | Some i \<Rightarrow> speakText i (s\<lparr>isContinuousRef := False\<rparr>))"

definition handleSpeakAll :: "session \<Rightarrow> session" where
  "handleSpeakAll s =
     (case activeParagraphIndex s of
        None \<Rightarrow> s\<lparr>activeParagraphIndex := Some 0, isContinuousRef := True,
                  isAutoAdvancingRef := True\<rparr>
      | Some i \<Rightarrow> speakText i (s\<lparr>isContinuousRef := True\<rparr>))"

definition handleStop :: "session \<Rightarrow> session" where
  "handleStop s =
     s\<lparr>calls := calls s @ [Cancel], isSpeaking := False, isContinuousRef := False,
       isAutoAdvancingRef := False\<rparr>"

text \<open>The body of the effect that watches \<open>activeParagraphIndex\<close>.\<close>

definition activeParagraphEffect :: "session \<Rightarrow> session" where
  "activeParagraphEffect s =
     (case activeParagraphIndex s of
        None \<Rightarrow> s
      | Some i \<Rightarrow>
          if isAutoAdvancingRef s
          then speakText i (scrollIntoView i (s\<lparr>isAutoAdvancingRef := False\<rparr>))
          else if isSpeaking s then handleStop s else s)"

text \<open>
  React runs an effect after the render that follows a handler, and only when a
  dependency differs from its value at the previous render; setting a state cell to
  the value it has causes nothing. \<open>commit prev\<close> is that render for the dependency
  \<open>[activeParagraphIndex]\<close>, \<open>prev\<close> being the index before the handler ran.
\<close>

definition commit :: "int option \<Rightarrow> session \<Rightarrow> session" where
  "commit prev s = (if activeParagraphIndex s = prev then s else activeParagraphEffect s)"

section \<open>Navigation (Reader.tsx)\<close>

definition handleParagraphClick :: "int \<Rightarrow> session \<Rightarrow> session" where
  "handleParagraphClick index s = s\<lparr>activeParagraphIndex := Some index\<rparr>"

record KeyboardEvent =
  code :: jsstring
  key :: jsstring
  ctrlKey :: bool
  metaKey :: bool
  targetTag :: jsstring

text \<open>
  \<open>handleKeyDown\<close> is three \<open>if\<close> blocks in a row, with a \<open>return\<close> for a key typed in a
  form control after the first: the space bar, then \<open>ArrowDown\<close> or \<open>n\<close>, then
  \<open>ArrowUp\<close> or \<open>p\<close>. Each block is a function here.
\<close>

definition isInput :: "KeyboardEvent \<Rightarrow> bool" where
  "isInput e \<longleftrightarrow>
     targetTag e = js ''TEXTAREA'' \<or> targetTag e = js ''INPUT'' \<or> targetTag e = js ''SELECT''"

definition keySpace :: "KeyboardEvent \<Rightarrow> session \<Rightarrow> session" where
  "keySpace e s =
     (if code e = js ''Space'' \<and> \<not> isInput e
      then s\<lparr>calls := calls s @ [ContainerScrollBy]\<rparr> else s)"

definition keyArrowDown :: "KeyboardEvent \<Rightarrow> session \<Rightarrow> session" where
  "keyArrowDown e s =
     (if (key e = js ''ArrowDown'' \<or> key e = js ''n'') \<and> length (paragraphs s) > 0
      then let next = (case activeParagraphIndex s of
                         None \<Rightarrow> 0
                       | Some prev \<Rightarrow> min (int (length (paragraphs s)) - 1) (prev + 1))
           in (scrollIntoView next s)\<lparr>activeParagraphIndex := Some next\<rparr>
      else s)"

definition keyArrowUp :: "KeyboardEvent \<Rightarrow> session \<Rightarrow> session" where
  "keyArrowUp e s =
     (if (key e = js ''ArrowUp'' \<or> key e = js ''p'') \<and> length (paragraphs s) > 0
      then let next = (case activeParagraphIndex s of
                         None \<Rightarrow> 0
                       | Some prev \<Rightarrow> max 0 (prev - 1))
           in (scrollIntoView next s)\<lparr>activeParagraphIndex := Some next\<rparr>
      else s)"

definition handleKeyDown :: "KeyboardEvent \<Rightarrow> session \<Rightarrow> session" where
  "handleKeyDown e s =
     (let s1 = keySpace e s
      in if isInput e then s1 else keyArrowUp e (keyArrowDown e s1))"

section \<open>Voice commands (Reader.tsx, processCommand)\<close>

text \<open>The two updater functions passed to \<open>setActiveParagraphIndex\<close>.\<close>

definition voiceNext :: "session \<Rightarrow> session" where
  "voiceNext s =
     (let prev = activeParagraphIndex s;
          current = (case prev of None \<Rightarrow> -1 | Some p \<Rightarrow> p);
          next = min (int (length (paragraphs s)) - 1) (current + 1);
          s1 = (if Some next \<noteq> prev then scrollIntoView next s else s)
      in s1\<lparr>activeParagraphIndex := Some next\<rparr>)"

definition voicePrevious :: "session \<Rightarrow> session" where
  "voicePrevious s =
     (let prev = activeParagraphIndex s;
          current = (case prev of None \<Rightarrow> 0 | Some p \<Rightarrow> p);
          next = max 0 (current - 1);
          s1 = (if Some next \<noteq> prev then scrollIntoView next s else s)
      in s1\<lparr>activeParagraphIndex := Some next\<rparr>)"

definition onUpdateSettings :: "ReaderSettings \<Rightarrow> session \<Rightarrow> session" where
  "onUpdateSettings st s = s\<lparr>settings := st\<rparr>"

definition processCommand :: "jsstring \<Rightarrow> session \<Rightarrow> session" where
  "processCommand command s0 =
     (let s = s0\<lparr>lastVoiceCommand := command\<rparr> in
      if js_includes command (js ''next'') then voiceNext s
      else if js_includes command (js ''previous'') \<or> js_includes command (js ''back'')
        then voicePrevious s
      else if js_includes command (js ''read all'') \<or> js_includes command (js ''start reading'')
        then handleSpeakAll s
      else if js_includes command (js ''stop'') \<or> js_includes command (js ''pause'')
        then handleStop s
      else if js_includes command (js ''magnifier on'')
        then onUpdateSettings ((settings s)\<lparr>isLoupeActive := True\<rparr>) s
      else if js_includes command (js ''magnifier off'')
        then onUpdateSettings ((settings s)\<lparr>isLoupeActive := False\<rparr>) s
      else if js_includes command (js ''focus mode on'') \<or> js_includes command (js ''focus on'')
        then onUpdateSettings ((settings s)\<lparr>isFocusMode := True\<rparr>) s
      else if js_includes command (js ''focus mode off'') \<or> js_includes command (js ''focus off'')
        then onUpdateSettings ((settings s)\<lparr>isFocusMode := False\<rparr>) s
      else if js_includes command (js ''bionic on'') \<or> js_includes command (js ''bionic reading on'')
        then onUpdateSettings ((settings s)\<lparr>isBionicReading := True\<rparr>) s
      else if js_includes command (js ''bionic off'') \<or> js_includes command (js ''bionic reading off'')
        then onUpdateSettings ((settings s)\<lparr>isBionicReading := False\<rparr>) s
      else s)"

section \<open>Document load (App.tsx, handleFileUpload; Reader.tsx, the effect on content)\<close>

text \<open>The effect on \<open>content\<close>: segment, clear the selection, stop the speech.\<close>

definition contentEffect :: "session \<Rightarrow> session" where
  "contentEffect s =
     handleStop (s\<lparr>paragraphs := splitText (content s), activeParagraphIndex := None\<rparr>)"

text \<open>
  \<open>handleFileUpload\<close> runs in two steps. When the file is chosen the annotations and
  the highlights are cleared; the file is then read or decoded asynchronously, and the
  callback calls \<open>setContent(text)\<close> and \<open>window.scrollTo(0, 0)\<close>. The effect on
  \<open>content\<close> follows only when the text differs from the content displayed, and the
  effect on \<open>activeParagraphIndex\<close> after it when the index changed.
\<close>

definition handleFileUpload :: "session \<Rightarrow> session" where
  "handleFileUpload s = s\<lparr>annotations := Map.empty, highlights := Map.empty\<rparr>"

definition reader_onload :: "jsstring \<Rightarrow> session \<Rightarrow> session" where
  "reader_onload t s =
     (let s1 = s\<lparr>calls := calls s @ [WindowScrollTo]\<rparr>
      in if t = content s1 then s1
         else commit (activeParagraphIndex s1) (contentEffect (s1\<lparr>content := t\<rparr>)))"

section \<open>Annotation and highlight stores (App.tsx)\<close>

text \<open>\<open>Date.now().toString()\<close>: the decimal digits of the time in milliseconds.\<close>

fun toString :: "nat \<Rightarrow> jsstring" where
  "toString n =
     (if n < 10 then [word_of_nat (48 + n)]
      else toString (n div 10) @ [word_of_nat (48 + n mod 10)])"

definition updateAnnotation :: "int \<Rightarrow> jsstring \<Rightarrow> session \<Rightarrow> session" where
  "updateAnnotation index t s = s\<lparr>annotations := (annotations s)(index \<mapsto> t)\<rparr>"

text \<open>\<open>now\<close> is the value of \<open>Date.now()\<close> at the call.\<close>

definition addHighlight :: "int \<Rightarrow> int \<Rightarrow> int \<Rightarrow> jsstring \<Rightarrow> nat \<Rightarrow> session \<Rightarrow> session" where
  "addHighlight index start end' t now s =
     (let current = highlights_at (highlights s) index
      in s\<lparr>highlights := (highlights s)
             (index \<mapsto> current @ [\<lparr>hl_start = start, hl_end = end', hl_text = t,
                                     hl_id = toString now\<rparr>])\<rparr>)"

definition removeHighlight :: "int \<Rightarrow> jsstring \<Rightarrow> session \<Rightarrow> session" where
  "removeHighlight paragraphIndex ident s =
     (let current = highlights_at (highlights s) paragraphIndex
      in s\<lparr>highlights := (highlights s)
             (paragraphIndex \<mapsto> filter (\<lambda>h. hl_id h \<noteq> ident) current)\<rparr>)"

section \<open>Font size (App.tsx, handleKey; Toolbar.tsx, the font buttons)\<close>

definition handleKey :: "KeyboardEvent \<Rightarrow> session \<Rightarrow> session" where
  "handleKey e s =
     (let s1 = (if (ctrlKey e \<or> metaKey e) \<and> (key e = js ''='' \<or> key e = js ''+'')
                then s\<lparr>settings := (settings s)\<lparr>fontSize := min (fontSize (settings s) + 2) 72\<rparr>\<rparr>
                else s)
      in if (ctrlKey e \<or> metaKey e) \<and> key e = js ''-''
         then s1\<lparr>settings := (settings s1)\<lparr>fontSize := max (fontSize (settings s1) - 2) 12\<rparr>\<rparr>
         else s1)"

definition decreaseFontSize :: "session \<Rightarrow> session" where
  "decreaseFontSize s =
     onUpdateSettings ((settings s)\<lparr>fontSize := max 12 (fontSize (settings s) - 2)\<rparr>) s"

definition increaseFontSize :: "session \<Rightarrow> session" where
  "increaseFontSize s =
     onUpdateSettings ((settings s)\<lparr>fontSize := min 64 (fontSize (settings s) + 2)\<rparr>) s"

section \<open>Vocabulary of the statements\<close>

text \<open>
  The shape of a list that alternates token, separator, token, ..., token: a separator
  is a non-empty run of whitespace, a token has no whitespace, and only the first and
  the last token may be empty (the flag tells whether the list starts at the first
  token). Separators bounded this way are maximal runs of whitespace.
\<close>

fun tokens_seps :: "bool \<Rightarrow> jsstring list \<Rightarrow> bool" where
  "tokens_seps first [] = False"
| "tokens_seps first [tok] = list_all (\<lambda>c. \<not> is_space c) tok"
| "tokens_seps first (tok # sep # rest) =
     (list_all (\<lambda>c. \<not> is_space c) tok \<and> (first \<or> tok \<noteq> [])
      \<and> sep \<noteq> [] \<and> list_all is_space sep \<and> tokens_seps False rest)"

text \<open>
  A rendering read as a sequence of runs: a span is a plain run, a mark a highlighted
  run, each with the characters it shows. A bare string is one plain run, and the
  empty string, for which nothing is displayed, none.
\<close>

datatype run = PlainRun jsstring | HighlightRun jsstring

fun node_run :: "node \<Rightarrow> run" where
  "node_run (Span c) = PlainRun (content_text c)"
| "node_run (Mark k c) = HighlightRun (content_text c)"

fun runs_of :: "rendered \<Rightarrow> run list" where
  "runs_of (Bare c) = (if content_text c = [] then [] else [PlainRun (content_text c)])"
| "runs_of (Nodes ns) = map node_run ns"

text \<open>
  The overlap resolution in the words of the specification: walk the highlights with
  \<open>lastIndex\<close>; skip a highlight that starts before \<open>lastIndex\<close>; otherwise emit the
  plain run \<open>text[lastIndex:start]\<close> if it is non-empty, then the highlighted run
  \<open>text[start:end]\<close>, and continue from \<open>end\<close>; at the end emit the plain run
  \<open>text[lastIndex:]\<close> if it is non-empty.
\<close>

fun spec_walk :: "jsstring \<Rightarrow> Highlight list \<Rightarrow> int \<Rightarrow> run list" where
  "spec_walk t [] lastIndex =
     (if js_slice_from t lastIndex = [] then [] else [PlainRun (js_slice_from t lastIndex)])"
| "spec_walk t (h # hs) lastIndex =
     (if hl_start h < lastIndex then spec_walk t hs lastIndex
      else (if js_slice t lastIndex (hl_start h) = [] then []
            else [PlainRun (js_slice t lastIndex (hl_start h))])
           @ HighlightRun (js_slice t (hl_start h) (hl_end h))
           # spec_walk t hs (hl_end h))"

definition spec_render :: "jsstring \<Rightarrow> Highlight list \<Rightarrow> run list" where
  "spec_render t hs = spec_walk t (sort_key hl_start hs) 0"

text \<open>
  The three playback states of the specification, as the component encodes them in
  \<open>isSpeaking\<close> and \<open>isContinuousRef\<close>.
\<close>

datatype PlaybackState = Idle | SpeakingSingle | SpeakingContinuous

definition playbackState :: "session \<Rightarrow> PlaybackState" where
  "playbackState s =
     (if \<not> isSpeaking s then Idle
      else if isContinuousRef s then SpeakingContinuous else SpeakingSingle)"

text \<open>
  The events of a session. A handler runs to its end, then React renders and runs the
  effect on \<open>activeParagraphIndex\<close> if the index changed: that is \<open>dispatch\<close>.
  \<open>ParagraphClick\<close> is a click on a paragraph or on an entry of the notes list, which
  both call \<open>setActiveParagraphIndex\<close> with the index clicked.
\<close>

datatype event =
    ParagraphClick int
  | KeyDown KeyboardEvent
  | FinalTranscript jsstring
  | PlayParagraphButton
  | ReadAllButton
  | StopButton
  | UtteranceEnd utterance
  | UtteranceError utterance

fun handler :: "event \<Rightarrow> session \<Rightarrow> session" where
  "handler (ParagraphClick i) s = handleParagraphClick i s"
| "handler (KeyDown e) s = handleKeyDown e s"
| "handler (FinalTranscript command) s = processCommand command s"
| "handler PlayParagraphButton s = handleSpeakCurrent s"
| "handler ReadAllButton s = handleSpeakAll s"
| "handler StopButton s = handleStop s"
| "handler (UtteranceEnd utt) s = utterance_onend utt s"
| "handler (UtteranceError utt) s = utterance_onerror utt s"

definition dispatch :: "event \<Rightarrow> session \<Rightarrow> session" where
  "dispatch e s = commit (activeParagraphIndex s) (handler e s)"

text \<open>
  Manual navigation: a click, a key, or a transcript that the interpreter takes as
  \<open>next\<close> or \<open>previous\<close>.
\<close>

fun is_manual :: "event \<Rightarrow> bool" where
  "is_manual (ParagraphClick i) = True"
| "is_manual (KeyDown e) = True"
| "is_manual (FinalTranscript command) =
     (js_includes command (js ''next'') \<or> js_includes command (js ''previous'')
      \<or> js_includes command (js ''back''))"
| "is_manual _ = False"

fun is_speak :: "call \<Rightarrow> bool" where
  "is_speak (Speak utt) = True"
| "is_speak _ = False"

text \<open>
  The voice commands in the words of the specification: the rules in priority order,
  each with the phrases that trigger it, and the first rule with a phrase contained in
  the transcript.
\<close>

datatype action =
    ActNext
  | ActPrevious
  | ActSpeakAll
  | ActStop
  | ActLoupe bool
  | ActFocusMode bool
  | ActBionic bool

definition rules :: "(string list \<times> action) list" where
  "rules =
     [([''next''], ActNext),
      ([''previous'', ''back''], ActPrevious),
      ([''read all'', ''start reading''], ActSpeakAll),
      ([''stop'', ''pause''], ActStop),
      ([''magnifier on''], ActLoupe True),
      ([''magnifier off''], ActLoupe False),
      ([''focus mode on'', ''focus on''], ActFocusMode True),
      ([''focus mode off'', ''focus off''], ActFocusMode False),
      ([''bionic on'', ''bionic reading on''], ActBionic True),
      ([''bionic off'', ''bionic reading off''], ActBionic False)]"

definition first_match :: "jsstring \<Rightarrow> action option" where
  "first_match command =
     map_option snd
       (find (\<lambda>(phrases, a). list_ex (\<lambda>p. js_includes command (js p)) phrases) rules)"

fun run_action :: "action \<Rightarrow> session \<Rightarrow> session" where
  "run_action ActNext s = voiceNext s"
| "run_action ActPrevious s = voicePrevious s"
| "run_action ActSpeakAll s = handleSpeakAll s"
| "run_action ActStop s = handleStop s"
| "run_action (ActLoupe b) s = onUpdateSettings ((settings s)\<lparr>isLoupeActive := b\<rparr>) s"
| "run_action (ActFocusMode b) s = onUpdateSettings ((settings s)\<lparr>isFocusMode := b\<rparr>) s"
| "run_action (ActBionic b) s = onUpdateSettings ((settings s)\<lparr>isBionicReading := b\<rparr>) s"

text \<open>The invariant of a highlight on a paragraph text.\<close>

definition range_ok :: "jsstring \<Rightarrow> int \<Rightarrow> int \<Rightarrow> bool" where
  "range_ok t start end' \<longleftrightarrow> 0 \<le> start \<and> start < end' \<and> end' \<le> int (length t)"

text \<open>
  A document load that nothing interrupts: the file is chosen and its text arrives.
\<close>

definition document_load :: "jsstring \<Rightarrow> session \<Rightarrow> session" where
  "document_load t s = reader_onload t (handleFileUpload s)"

text \<open>A session to evaluate on: three paragraphs, nothing selected, nothing spoken.\<close>

definition session0 :: session where
  "session0 =
     \<lparr>content = js ''one\<newline>two\<newline>three'', settings = DEFAULT_SETTINGS,
      annotations = Map.empty, highlights = Map.empty,
      paragraphs = [js ''one'', js ''two'', js ''three''], activeParagraphIndex = None,
      voices = [], isSpeaking = False, lastVoiceCommand = [], isContinuousRef = False,
      isAutoAdvancingRef = False, calls = []\<rparr>"

text \<open>
  The speech engine as the specification describes it: one utterance at most is in
  flight; \<open>cancel\<close> drops it, \<open>speak\<close> replaces it, and the engine reports the end or
  the failure of the utterance in flight only, which is then no longer in flight.
  \<open>engine p cs\<close> is the utterance in flight after the calls \<open>cs\<close>, \<open>p\<close> being the one
  before.
\<close>

fun engine :: "utterance option \<Rightarrow> call list \<Rightarrow> utterance option" where
  "engine p [] = p"
| "engine p (Cancel # cs) = engine None cs"
| "engine p (Speak utt # cs) = engine (Some utt) cs"
| "engine p (c # cs) = engine p cs"

definition new_calls :: "session \<Rightarrow> session \<Rightarrow> call list" where
  "new_calls s s' = drop (length (calls s)) (calls s')"

fun is_user :: "event \<Rightarrow> bool" where
  "is_user (UtteranceEnd utt) = False"
| "is_user (UtteranceError utt) = False"
| "is_user _ = True"

text \<open>
  The sessions that events lead to, each with the utterance in flight: from any idle
  session, by the events of the user, by document loads, by the reports of the engine
  on the utterance in flight, and by the changes that leave playback alone (the
  toolbar and the sidebar writing the settings, notes and highlights being edited,
  the engine publishing its voices).
\<close>

inductive reachable :: "session \<Rightarrow> utterance option \<Rightarrow> bool" where
  idle: "\<not> isSpeaking s \<Longrightarrow> \<not> isAutoAdvancingRef s \<Longrightarrow> reachable s None"
| user: "reachable s p \<Longrightarrow> is_user e \<Longrightarrow>
         reachable (dispatch e s) (engine p (new_calls s (dispatch e s)))"
| load: "reachable s p \<Longrightarrow>
         reachable (document_load t s) (engine p (new_calls s (document_load t s)))"
| ended: "reachable s (Some utt) \<Longrightarrow>
         reachable (dispatch (UtteranceEnd utt) s)
                   (engine None (new_calls s (dispatch (UtteranceEnd utt) s)))"
| failed: "reachable s (Some utt) \<Longrightarrow>
         reachable (dispatch (UtteranceError utt) s)
                   (engine None (new_calls s (dispatch (UtteranceError utt) s)))"
| edit: "reachable s p \<Longrightarrow>
         reachable (s\<lparr>settings := st, annotations := an, highlights := hl, voices := vs\<rparr>) p"

text \<open>
  What holds between events: the flag of the programmatic advance is down, and the
  utterance in flight, if any, is that of the active paragraph of the current list.
\<close>

definition consistent :: "session \<Rightarrow> utterance option \<Rightarrow> bool" where
  "consistent s p \<longleftrightarrow>
     \<not> isAutoAdvancingRef s
     \<and> (case p of
          None \<Rightarrow> True
        | Some utt \<Rightarrow>
            isSpeaking s \<and> activeParagraphIndex s = Some (u_index utt)
            \<and> u_count utt = length (paragraphs s)
            \<and> 0 \<le> u_index utt \<and> u_index utt < int (length (paragraphs s)))"

text \<open>
  A step that only navigates: it leaves the playback state and the paragraph list,
  makes no call on the speech engine, and keeps the active index or sets it to a
  number.
\<close>

definition navigates :: "session \<Rightarrow> session \<Rightarrow> bool" where
  "navigates s s1 \<longleftrightarrow>
     isSpeaking s1 = isSpeaking s
     \<and> isAutoAdvancingRef s1 = isAutoAdvancingRef s
     \<and> paragraphs s1 = paragraphs s
     \<and> take (length (calls s)) (calls s1) = calls s
     \<and> list_all (\<lambda>c. c \<noteq> Cancel \<and> \<not> is_speak c) (new_calls s s1)
     \<and> (activeParagraphIndex s1 = activeParagraphIndex s
        \<or> activeParagraphIndex s1 \<noteq> None)"

section \<open>Properties of the string operations\<close>

lemma split_newline_not_Nil: "split_newline s \<noteq> []"
  by (induction s) (auto split: list.splits)

lemma join_newline_Cons:
  "ls \<noteq> [] \<Longrightarrow> join_newline (l # ls) = l @ newline # join_newline ls"
  by (cases ls) simp_all

lemma join_split_newline: "join_newline (split_newline s) = s"
proof (induction s)
  case Nil
  show ?case by simp
next
  case (Cons c cs)
  show ?case
  proof (cases "c = newline")
    case True
    with Cons show ?thesis
      by (simp add: join_newline_Cons split_newline_not_Nil)
  next
    case False
    obtain l ls where ls: "split_newline cs = l # ls"
      using split_newline_not_Nil [of cs] by (cases "split_newline cs") auto
    have "join_newline ((c # l) # ls) = c # join_newline (l # ls)"
      by (cases ls) simp_all
    with False ls Cons show ?thesis by simp
  qed
qed

lemma split_newline_no_newline: "l \<in> set (split_newline s) \<Longrightarrow> newline \<notin> set l"
proof (induction s arbitrary: l)
  case Nil
  then show ?case by simp
next
  case (Cons c cs)
  then show ?case
    by (cases "split_newline cs") (auto split: if_splits)
qed

lemma dropWhile_all_iff: "(\<forall>x \<in> set (dropWhile P xs). P x) \<longleftrightarrow> dropWhile P xs = []"
proof
  assume all: "\<forall>x \<in> set (dropWhile P xs). P x"
  show "dropWhile P xs = []"
  proof (rule ccontr)
    assume ne: "dropWhile P xs \<noteq> []"
    then have "\<not> P (hd (dropWhile P xs))" by (rule hd_dropWhile)
    moreover from ne have "hd (dropWhile P xs) \<in> set (dropWhile P xs)" by simp
    ultimately show False using all by blast
  qed
next
  assume e: "dropWhile P xs = []"
  show "\<forall>x \<in> set (dropWhile P xs). P x" unfolding e by simp
qed

lemma js_trim_empty_iff: "js_trim s = [] \<longleftrightarrow> (\<forall>c \<in> set s. is_space c)"
  by (simp add: js_trim_def dropWhile_eq_Nil_conv dropWhile_all_iff)

section \<open>Properties of the bionic transform\<close>

declare split_whitespace.simps [simp del]

lemma concat_split_whitespace: "concat (split_whitespace s) = s"
proof (induction s rule: split_whitespace.induct)
  case (1 s)
  show ?case
  proof (cases "dropWhile (\<lambda>c. \<not> is_space c) s = []")
    case True
    then show ?thesis
      by (subst split_whitespace.simps) (simp add: dropWhile_eq_Nil_conv)
  next
    case False
    with 1 show ?thesis
      by (subst split_whitespace.simps) simp
  qed
qed

lemma takeWhile_not_space: "list_all (\<lambda>c. \<not> is_space c) (takeWhile (\<lambda>c. \<not> is_space c) s)"
  by (auto simp: list_all_iff dest: set_takeWhileD)

lemma takeWhile_space: "list_all is_space (takeWhile is_space s)"
  by (auto simp: list_all_iff dest: set_takeWhileD)


lemma tokens_seps_weaken: "tokens_seps False xs \<Longrightarrow> tokens_seps first xs"
  by (induction first xs rule: tokens_seps.induct) auto

lemma tokens_seps_split_aux:
  "(s = [] \<or> \<not> is_space (hd s)) \<Longrightarrow> tokens_seps False (split_whitespace s)"
proof (induction s rule: split_whitespace.induct)
  case (1 s)
  let ?r = "dropWhile (\<lambda>c. \<not> is_space c) s"
  show ?case
  proof (cases "?r = []")
    case True
    then show ?thesis
      by (subst split_whitespace.simps) (simp add: takeWhile_not_space)
  next
    case False
    then have sp: "is_space (hd ?r)"
      using hd_dropWhile [of "\<lambda>c. \<not> is_space c" s] by simp
    let ?r2 = "dropWhile is_space ?r"
    have h2: "?r2 = [] \<or> \<not> is_space (hd ?r2)"
      using hd_dropWhile [of is_space ?r] by blast
    have ih: "tokens_seps False (split_whitespace ?r2)"
      using "1.IH" [OF False h2] .
    have sep: "takeWhile is_space ?r \<noteq> []"
      using False sp by (cases ?r) auto
    from False have sne: "s \<noteq> []" by auto
    with 1(2) have "\<not> is_space (hd s)" by simp
    with sne have tok: "takeWhile (\<lambda>c. \<not> is_space c) s \<noteq> []" by (cases s) auto
    show ?thesis
      using False ih sep tok
      by (subst split_whitespace.simps) (simp add: takeWhile_not_space takeWhile_space)
  qed
qed

lemma tokens_seps_split_whitespace: "tokens_seps True (split_whitespace s)"
proof (cases "dropWhile (\<lambda>c. \<not> is_space c) s = []")
  case True
  then show ?thesis
    by (subst split_whitespace.simps) (simp add: takeWhile_not_space)
next
  case False
  let ?r = "dropWhile (\<lambda>c. \<not> is_space c) s"
  from False have sp: "is_space (hd ?r)"
    using hd_dropWhile [of "\<lambda>c. \<not> is_space c" s] by simp
  let ?r2 = "dropWhile is_space ?r"
  have h2: "?r2 = [] \<or> \<not> is_space (hd ?r2)"
    using hd_dropWhile [of is_space ?r] by blast
  have ih: "tokens_seps False (split_whitespace ?r2)"
    using tokens_seps_split_aux [OF h2] .
  have sep: "takeWhile is_space ?r \<noteq> []"
    using False sp by (cases ?r) auto
  show ?thesis
    using False ih sep
    by (subst split_whitespace.simps) (simp add: takeWhile_not_space takeWhile_space)
qed

lemma bionic_part_space: "ws \<noteq> [] \<Longrightarrow> list_all is_space ws \<Longrightarrow> bionic_part ws = Str ws"
  by (simp add: bionic_part_def)

lemma js_slice_take: "js_slice s 0 (int n) = take n s"
  by (simp add: js_slice_def Let_def min_def)

lemma js_slice_from_drop: "js_slice_from s (int n) = drop n s"
  by (simp add: js_slice_from_def js_slice_def Let_def min_def)

lemma bionic_part_token:
  "list_all (\<lambda>c. \<not> is_space c) tok \<Longrightarrow>
   bionic_part tok = Fragment (take (boldLength (length tok)) tok) (drop (boldLength (length tok)) tok)"
  by (cases tok) (auto simp: bionic_part_def js_slice_take js_slice_from_drop)

lemma boldLength_cases:
  "boldLength L = (if L \<le> 3 then 1 else if L \<le> 5 then 2 else nat \<lceil>0.4 * real L\<rceil>)"
proof -
  have "int ((2 * L + 4) div 5) = \<lceil>0.4 * real L\<rceil>" by linarith
  then have "(2 * L + 4) div 5 = nat \<lceil>0.4 * real L\<rceil>" by linarith
  then show ?thesis by (simp add: boldLength_def)
qed

lemma boldLength_le: "0 < L \<Longrightarrow> boldLength L \<le> L"
  unfolding boldLength_def by (auto split: if_splits)


lemma piece_text_bionic_part: "piece_text (bionic_part part) = part"
  by (simp add: bionic_part_def js_slice_take js_slice_from_drop)

lemma bionic_examples:
  "map bionic_part (split_whitespace (js ''I'')) = [Fragment (js ''I'') []]"
  "map bionic_part (split_whitespace (js ''cat'')) = [Fragment (js ''c'') (js ''at'')]"
  "map bionic_part (split_whitespace (js ''hello'')) = [Fragment (js ''he'') (js ''llo'')]"
  "map bionic_part (split_whitespace (js ''reading'')) = [Fragment (js ''rea'') (js ''ding'')]"
  "map bionic_part (split_whitespace (js ''a cat  reading'')) =
     [Fragment (js ''a'') [], Str (js '' ''), Fragment (js ''c'') (js ''at''),
      Str (js ''  ''), Fragment (js ''rea'') (js ''ding'')]"
  by code_simp+

section \<open>Properties of the rendering\<close>

lemma content_text_styled: "content_text (styled st u) = u"
proof -
  have "concat (map piece_text (map bionic_part (split_whitespace u))) = concat (split_whitespace u)"
    by (simp add: comp_def piece_text_bionic_part)
  then show ?thesis
    by (simp add: styled_def applyBionicReading_def concat_split_whitespace)
qed

lemma take_js_slice:
  assumes "0 \<le> a" "a \<le> b"
  shows "take (nat a) s @ js_slice s a b = take (nat b) s"
proof -
  let ?len = "int (length s)"
  let ?from = "min a ?len" and ?to = "min b ?len"
  have sl: "js_slice s a b = take (nat (?to - ?from)) (drop (nat ?from) s)"
    using assms by (simp add: js_slice_def Let_def)
  have t1: "take (nat a) s = take (nat ?from) s"
    using assms by (simp add: min_def)
  have t2: "take (nat b) s = take (nat ?to) s"
    using assms by (simp add: min_def)
  have "nat ?to = nat ?from + nat (?to - ?from)" using assms by linarith
  then have "take (nat ?to) s = take (nat ?from) s @ take (nat (?to - ?from)) (drop (nat ?from) s)"
    by (simp only: take_add)
  with sl t1 t2 show ?thesis by simp
qed

lemma js_slice_from_nonneg: "0 \<le> a \<Longrightarrow> js_slice_from s a = drop (nat a) s"
  by (simp add: js_slice_from_def js_slice_def Let_def min_def)

lemma walk_text:
  assumes "\<forall>h \<in> set hs. 0 \<le> hl_start h \<and> hl_start h \<le> hl_end h"
    and "0 \<le> lastIndex"
    and "concat (map node_text nodes) = take (nat lastIndex) t"
    and "walk st t hs nodes lastIndex = (nodes', lastIndex')"
  shows "0 \<le> lastIndex' \<and> concat (map node_text nodes') = take (nat lastIndex') t"
  using assms
proof (induction hs arbitrary: nodes lastIndex)
  case Nil
  then show ?case by simp
next
  case (Cons h hs)
  show ?case
  proof (cases "hl_start h < lastIndex")
    case True
    with Cons.prems have "walk st t hs nodes lastIndex = (nodes', lastIndex')" by simp
    with Cons.IH [of lastIndex nodes] Cons.prems show ?thesis by simp
  next
    case False
    let ?n1 = "if hl_start h > lastIndex
               then nodes @ [Span (styled st (js_slice t lastIndex (hl_start h)))]
               else nodes"
    let ?n2 = "?n1 @ [Mark (hl_id h) (styled st (js_slice t (hl_start h) (hl_end h)))]"
    from False Cons.prems have w: "walk st t hs ?n2 (hl_end h) = (nodes', lastIndex')"
      by (simp add: Let_def)
    from Cons.prems have h: "0 \<le> hl_start h" "hl_start h \<le> hl_end h" by simp_all
    from False have le: "lastIndex \<le> hl_start h" by simp
    have c1: "concat (map node_text ?n1) = take (nat (hl_start h)) t"
    proof (cases "hl_start h > lastIndex")
      case True
      then show ?thesis
        using Cons.prems(3) take_js_slice [OF Cons.prems(2) le, of t]
        by (simp add: content_text_styled)
    next
      case False
      with le have "hl_start h = lastIndex" by simp
      with Cons.prems(3) show ?thesis by simp
    qed
    have c2: "concat (map node_text ?n2) = take (nat (hl_end h)) t"
      using c1 take_js_slice [OF h, of t] by (simp add: content_text_styled)
    have e: "0 \<le> hl_end h" using h by simp
    from Cons.prems(1) have rest: "\<forall>h \<in> set hs. 0 \<le> hl_start h \<and> hl_start h \<le> hl_end h" by simp
    show ?thesis by (rule Cons.IH [OF rest e c2 w])
  qed
qed

lemma rendered_text_render:
  assumes "\<forall>h \<in> set (highlights_at hls index). 0 \<le> hl_start h \<and> hl_start h \<le> hl_end h"
  shows "rendered_text (renderParagraphContent st hls t index) = t"
proof (cases "hls index")
  case None
  then show ?thesis by (simp add: renderParagraphContent_def content_text_styled)
next
  case (Some hs)
  show ?thesis
  proof (cases "hs = []")
    case True
    with Some show ?thesis by (simp add: renderParagraphContent_def content_text_styled)
  next
    case False
    obtain nodes lastIndex where w: "walk st t (sort_key hl_start hs) [] 0 = (nodes, lastIndex)"
      by (cases "walk st t (sort_key hl_start hs) [] 0") auto
    from assms Some have "\<forall>h \<in> set (sort_key hl_start hs). 0 \<le> hl_start h \<and> hl_start h \<le> hl_end h"
      by (simp add: highlights_at_def)
    from walk_text [OF this _ _ w]
    have nn: "0 \<le> lastIndex" and c: "concat (map node_text nodes) = take (nat lastIndex) t"
      by simp_all
    show ?thesis
    proof (cases "lastIndex < int (length t)")
      case True
      have "take (nat lastIndex) t @ drop (nat lastIndex) t = t" by simp
      with True Some False w c nn show ?thesis
        by (simp add: renderParagraphContent_def content_text_styled js_slice_from_nonneg)
    next
      case F: False
      then have "take (nat lastIndex) t = t" by simp
      with F Some False w c show ?thesis
        by (simp add: renderParagraphContent_def)
    qed
  qed
qed

lemma js_slice_nonempty:
  assumes "0 \<le> a" "a < b" "b \<le> int (length s)"
  shows "js_slice s a b \<noteq> []"
  using assms by (simp add: js_slice_def Let_def min_def)

lemma js_slice_same: "js_slice s a a = []"
  by (simp add: js_slice_def Let_def)

lemma js_slice_from_empty_iff:
  "0 \<le> a \<Longrightarrow> js_slice_from s a = [] \<longleftrightarrow> \<not> a < int (length s)"
  by (auto simp: js_slice_from_nonneg)

text \<open>The node list of the walk, with the trailing span the function adds after it.\<close>

lemma walk_runs:
  assumes "\<forall>h \<in> set hs. hl_start h \<le> int (length t) \<and> 0 \<le> hl_end h"
    and "0 \<le> lastIndex"
    and "walk st t hs nodes lastIndex = (nodes', lastIndex')"
  shows "map node_run (if lastIndex' < int (length t)
                       then nodes' @ [Span (styled st (js_slice_from t lastIndex'))]
                       else nodes')
         = map node_run nodes @ spec_walk t hs lastIndex"
  using assms
proof (induction hs arbitrary: nodes lastIndex)
  case Nil
  then show ?case
    by (auto simp: content_text_styled js_slice_from_empty_iff)
next
  case (Cons h hs)
  from Cons.prems(1) have rest: "\<forall>h \<in> set hs. hl_start h \<le> int (length t) \<and> 0 \<le> hl_end h"
    and hh: "hl_start h \<le> int (length t)" "0 \<le> hl_end h" by simp_all
  show ?case
  proof (cases "hl_start h < lastIndex")
    case True
    with Cons.prems have "walk st t hs nodes lastIndex = (nodes', lastIndex')" by simp
    from Cons.IH [OF rest Cons.prems(2) this] True show ?thesis by simp
  next
    case False
    let ?n1 = "if hl_start h > lastIndex
               then nodes @ [Span (styled st (js_slice t lastIndex (hl_start h)))]
               else nodes"
    let ?n2 = "?n1 @ [Mark (hl_id h) (styled st (js_slice t (hl_start h) (hl_end h)))]"
    from False Cons.prems have w: "walk st t hs ?n2 (hl_end h) = (nodes', lastIndex')"
      by (simp add: Let_def)
    have pre: "map node_run ?n1 = map node_run nodes
                 @ (if js_slice t lastIndex (hl_start h) = [] then []
                    else [PlainRun (js_slice t lastIndex (hl_start h))])"
    proof (cases "hl_start h > lastIndex")
      case True
      with js_slice_nonempty [OF Cons.prems(2) True hh(1)] show ?thesis
        by (simp add: content_text_styled)
    next
      case F: False
      with False have "hl_start h = lastIndex" by simp
      then show ?thesis by (simp add: js_slice_same)
    qed
    from Cons.IH [OF rest hh(2) w] pre False show ?thesis
      by (simp add: content_text_styled)
  qed
qed

lemma runs_of_render:
  assumes "\<forall>h \<in> set (highlights_at hls index). hl_start h \<le> int (length t) \<and> 0 \<le> hl_end h"
  shows "runs_of (renderParagraphContent st hls t index)
         = spec_render t (highlights_at hls index)"
proof (cases "hls index")
  case None
  then show ?thesis
    by (simp add: renderParagraphContent_def content_text_styled highlights_at_def spec_render_def
        js_slice_from_nonneg)
next
  case (Some hs)
  show ?thesis
  proof (cases "hs = []")
    case True
    with Some show ?thesis
      by (simp add: renderParagraphContent_def content_text_styled highlights_at_def spec_render_def
          js_slice_from_nonneg)
  next
    case False
    obtain nodes lastIndex where w: "walk st t (sort_key hl_start hs) [] 0 = (nodes, lastIndex)"
      by (cases "walk st t (sort_key hl_start hs) [] 0") auto
    from assms Some have "\<forall>h \<in> set (sort_key hl_start hs). hl_start h \<le> int (length t) \<and> 0 \<le> hl_end h"
      by (simp add: highlights_at_def)
    from walk_runs [OF this _ w] Some False w show ?thesis
      by (simp add: renderParagraphContent_def highlights_at_def spec_render_def)
  qed
qed

lemma overlap_example:
  assumes "8 \<le> length t"
  shows "runs_of (renderParagraphContent st
            (hls(index \<mapsto> [\<lparr>hl_start = 0, hl_end = 5, hl_text = x1, hl_id = k1\<rparr>,
                                  \<lparr>hl_start = 3, hl_end = 8, hl_text = x2, hl_id = k2\<rparr>])) t index)
         = [HighlightRun (take 5 t), PlainRun (drop 5 t)]"
  using assms
  by (simp add: renderParagraphContent_def content_text_styled js_slice_def js_slice_from_def Let_def)

lemma adjacent_example:
  assumes "8 \<le> length t"
  shows "runs_of (renderParagraphContent st
            (hls(index \<mapsto> [\<lparr>hl_start = 0, hl_end = 5, hl_text = x1, hl_id = k1\<rparr>,
                                  \<lparr>hl_start = 5, hl_end = 8, hl_text = x2, hl_id = k2\<rparr>])) t index)
         = [HighlightRun (take 5 t), HighlightRun (take 3 (drop 5 t))]
           @ (if 8 < length t then [PlainRun (drop 8 t)] else [])"
  using assms
  by (simp add: renderParagraphContent_def content_text_styled js_slice_def js_slice_from_def Let_def)

section \<open>Properties of the voice commands and of playback\<close>

declare toString.simps [simp del]

lemma js_includes_iff: "js_includes s sub \<longleftrightarrow> (\<exists>p q. s = p @ sub @ q)"
proof (induction s)
  case Nil
  then show ?case by auto
next
  case (Cons c cs)
  show ?case
  proof
    assume "js_includes (c # cs) sub"
    then consider "prefix sub (c # cs)" | "js_includes cs sub" by auto
    then show "\<exists>p q. c # cs = p @ sub @ q"
    proof cases
      case 1
      then obtain q where "c # cs = sub @ q" by (auto simp: prefix_def)
      then have "c # cs = [] @ sub @ q" by simp
      then show ?thesis by blast
    next
      case 2
      with Cons obtain p q where "cs = p @ sub @ q" by blast
      then have "c # cs = (c # p) @ sub @ q" by simp
      then show ?thesis by blast
    qed
  next
    assume "\<exists>p q. c # cs = p @ sub @ q"
    then obtain p q where pq: "c # cs = p @ sub @ q" by blast
    show "js_includes (c # cs) sub"
    proof (cases p)
      case Nil
      with pq have "prefix sub (c # cs)" by (simp add: prefix_def)
      then show ?thesis by simp
    next
      case (Cons a p')
      with pq have "cs = p' @ sub @ q" by simp
      with Cons.IH have "js_includes cs sub" by blast
      then show ?thesis by simp
    qed
  qed
qed

lemma processCommand_first_match:
  "processCommand command s =
     (case first_match command of
        None \<Rightarrow> s\<lparr>lastVoiceCommand := command\<rparr>
      | Some a \<Rightarrow> run_action a (s\<lparr>lastVoiceCommand := command\<rparr>))"
  by (simp add: processCommand_def first_match_def rules_def Let_def)

lemma read_all_example: "first_match (js ''please read all of this'') = Some ActSpeakAll"
  by code_simp

lemma lastVoiceCommand_run_action: "lastVoiceCommand (run_action a s) = lastVoiceCommand s"
  by (cases a)
    (simp_all add: voiceNext_def voicePrevious_def scrollIntoView_def Let_def
      handleSpeakAll_def handleStop_def speakText_def onUpdateSettings_def split: option.splits)

lemma lastVoiceCommand_processCommand: "lastVoiceCommand (processCommand command s) = command"
  by (simp add: processCommand_first_match lastVoiceCommand_run_action split: option.splits)

lemma processCommand_manual:
  assumes "is_manual (FinalTranscript c)"
  shows "processCommand c s = voiceNext (s\<lparr>lastVoiceCommand := c\<rparr>)
       \<or> processCommand c s = voicePrevious (s\<lparr>lastVoiceCommand := c\<rparr>)"
proof (cases "js_includes c (js ''next'')")
  case True
  then show ?thesis by (simp add: processCommand_def Let_def)
next
  case False
  with assms have "js_includes c (js ''previous'') \<or> js_includes c (js ''back'')" by simp
  with False show ?thesis by (simp add: processCommand_def Let_def)
qed

lemma voice_nav_facts:
  "isSpeaking (voiceNext s) = isSpeaking s"
  "isAutoAdvancingRef (voiceNext s) = isAutoAdvancingRef s"
  "isContinuousRef (voiceNext s) = isContinuousRef s"
  "\<exists>j. activeParagraphIndex (voiceNext s) = Some j"
  "filter is_speak (calls (voiceNext s)) = filter is_speak (calls s)"
  "isSpeaking (voicePrevious s) = isSpeaking s"
  "isAutoAdvancingRef (voicePrevious s) = isAutoAdvancingRef s"
  "isContinuousRef (voicePrevious s) = isContinuousRef s"
  "\<exists>j. activeParagraphIndex (voicePrevious s) = Some j"
  "filter is_speak (calls (voicePrevious s)) = filter is_speak (calls s)"
  by (simp_all add: voiceNext_def voicePrevious_def scrollIntoView_def Let_def)

lemma onend_advance:
  assumes "isContinuousRef s" "u_index utt < int (u_count utt) - 1"
  shows "utterance_onend utt s = s\<lparr>isAutoAdvancingRef := True, activeParagraphIndex := Some (u_index utt + 1)\<rparr>"
  using assms by (simp add: utterance_onend_def)

lemma onend_finish:
  assumes "\<not> (isContinuousRef s \<and> u_index utt < int (u_count utt) - 1)"
  shows "utterance_onend utt s = s\<lparr>isSpeaking := False, isContinuousRef := False\<rparr>"
  using assms by (auto simp add: utterance_onend_def)

lemma dispatch_end_advance:
  assumes "isContinuousRef s" "u_count utt = length (paragraphs s)" "0 \<le> u_index utt"
    "u_index utt < int (length (paragraphs s)) - 1"
    "activeParagraphIndex s \<noteq> Some (u_index utt + 1)"
  shows "dispatch (UtteranceEnd utt) s =
     s\<lparr>activeParagraphIndex := Some (u_index utt + 1),
       isAutoAdvancingRef := False,
       isSpeaking := True,
       calls := calls s @ [ScrollIntoView (u_index utt + 1), Cancel,
          Speak \<lparr>u_text = paragraphs s ! nat (u_index utt + 1),
                 u_voice = find (\<lambda>v. v = speechVoiceURI (settings s)) (voices s),
                 u_index = u_index utt + 1, u_count = length (paragraphs s)\<rparr>]\<rparr>"
  using assms
  by (simp add: dispatch_def commit_def utterance_onend_def activeParagraphEffect_def
      scrollIntoView_def speakText_def Let_def)

lemma dispatch_end_finish:
  assumes "\<not> (isContinuousRef s \<and> u_index utt < int (u_count utt) - 1)"
  shows "dispatch (UtteranceEnd utt) s = s\<lparr>isSpeaking := False, isContinuousRef := False\<rparr>"
  using assms by (auto simp add: dispatch_def commit_def utterance_onend_def)

lemma key_facts:
  "isSpeaking (keySpace k s) = isSpeaking s"
  "isAutoAdvancingRef (keySpace k s) = isAutoAdvancingRef s"
  "isContinuousRef (keySpace k s) = isContinuousRef s"
  "activeParagraphIndex (keySpace k s) = activeParagraphIndex s"
  "filter is_speak (calls (keySpace k s)) = filter is_speak (calls s)"
  "isSpeaking (keyArrowDown k s) = isSpeaking s"
  "isAutoAdvancingRef (keyArrowDown k s) = isAutoAdvancingRef s"
  "isContinuousRef (keyArrowDown k s) = isContinuousRef s"
  "filter is_speak (calls (keyArrowDown k s)) = filter is_speak (calls s)"
  "isSpeaking (keyArrowUp k s) = isSpeaking s"
  "isAutoAdvancingRef (keyArrowUp k s) = isAutoAdvancingRef s"
  "isContinuousRef (keyArrowUp k s) = isContinuousRef s"
  "filter is_speak (calls (keyArrowUp k s)) = filter is_speak (calls s)"
  by (simp_all add: keySpace_def keyArrowDown_def keyArrowUp_def scrollIntoView_def Let_def)

lemma key_index:
  "activeParagraphIndex (keyArrowDown k s) = activeParagraphIndex s
   \<or> activeParagraphIndex (keyArrowDown k s) \<noteq> None"
  "activeParagraphIndex (keyArrowUp k s) = activeParagraphIndex s
   \<or> activeParagraphIndex (keyArrowUp k s) \<noteq> None"
  by (simp_all add: keyArrowDown_def keyArrowUp_def scrollIntoView_def Let_def)

lemma handleKeyDown_index:
  "activeParagraphIndex (handleKeyDown k s) = activeParagraphIndex s
   \<or> activeParagraphIndex (handleKeyDown k s) \<noteq> None"
  using key_index(1) [of k "keySpace k s"] key_index(2) [of k "keyArrowDown k (keySpace k s)"]
  by (auto simp: handleKeyDown_def Let_def key_facts)

lemma manual_keeps_flags:
  assumes "is_manual e"
  shows "isSpeaking (handler e s) = isSpeaking s \<and> isAutoAdvancingRef (handler e s) = isAutoAdvancingRef s
     \<and> isContinuousRef (handler e s) = isContinuousRef s"
proof (cases e)
  case (ParagraphClick i)
  then show ?thesis by (simp add: handleParagraphClick_def)
next
  case (KeyDown k)
  then show ?thesis
    by (simp add: handleKeyDown_def Let_def key_facts)
next
  case (FinalTranscript c)
  with assms have "is_manual (FinalTranscript c)" by simp
  from processCommand_manual [OF this, of s] show ?thesis
    unfolding FinalTranscript by (auto simp: voice_nav_facts)
qed (use assms in simp_all)

lemma manual_index:
  assumes "is_manual e" "activeParagraphIndex (handler e s) \<noteq> activeParagraphIndex s"
  shows "activeParagraphIndex (handler e s) \<noteq> None"
proof (cases e)
  case (ParagraphClick i)
  then show ?thesis by (simp add: handleParagraphClick_def)
next
  case (KeyDown k)
  with assms(2) handleKeyDown_index [of k s] show ?thesis
    by simp
next
  case (FinalTranscript c)
  with assms have "is_manual (FinalTranscript c)" by simp
  from processCommand_manual [OF this, of s] show ?thesis
    unfolding FinalTranscript by (auto simp: voice_nav_facts)
qed (use assms in simp_all)

lemma manual_calls:
  assumes "is_manual e"
  shows "filter is_speak (calls (handler e s)) = filter is_speak (calls s)"
proof (cases e)
  case (ParagraphClick i)
  then show ?thesis by (simp add: handleParagraphClick_def)
next
  case (KeyDown k)
  then show ?thesis
    by (simp add: handleKeyDown_def Let_def key_facts)
next
  case (FinalTranscript c)
  with assms have "is_manual (FinalTranscript c)" by simp
  from processCommand_manual [OF this, of s] show ?thesis
    unfolding FinalTranscript by (auto simp: voice_nav_facts)
qed (use assms in simp_all)

lemma dispatch_manual:
  assumes "is_manual e" "isSpeaking s" "\<not> isAutoAdvancingRef s"
    "activeParagraphIndex (handler e s) \<noteq> activeParagraphIndex s"
  shows "dispatch e s = handleStop (handler e s)"
proof -
  from manual_keeps_flags [OF assms(1), of s] assms(2,3)
  have f: "isSpeaking (handler e s)" "\<not> isAutoAdvancingRef (handler e s)" by simp_all
  from manual_index [OF assms(1,4)] obtain j where "activeParagraphIndex (handler e s) = Some j"
    by auto
  with f assms(4) show ?thesis
    by (simp add: dispatch_def commit_def activeParagraphEffect_def)
qed

lemma reader_onload_changed:
  assumes "t \<noteq> content s"
  shows "reader_onload t s =
     s\<lparr>content := t, paragraphs := splitText t, activeParagraphIndex := None,
       calls := calls s @ [WindowScrollTo, Cancel], isSpeaking := False,
       isContinuousRef := False, isAutoAdvancingRef := False\<rparr>"
  using assms
  by (simp add: reader_onload_def Let_def commit_def contentEffect_def handleStop_def
      activeParagraphEffect_def)

lemma reader_onload_same: "reader_onload (content s) s = s\<lparr>calls := calls s @ [WindowScrollTo]\<rparr>"
  by (simp add: reader_onload_def Let_def)

text \<open>
  What the arrival of a different text resets and what it leaves: the paragraph list,
  the selection and the playback are reset, the two stores are not touched.
\<close>

lemma reader_onload_keeps_stores:
  "highlights (reader_onload t s) = highlights s"
  "annotations (reader_onload t s) = annotations s"
  by (simp_all add: reader_onload_def Let_def commit_def contentEffect_def handleStop_def
      activeParagraphEffect_def)

lemma document_load_changed:
  assumes "t \<noteq> content s"
  shows "document_load t s =
     s\<lparr>content := t, annotations := Map.empty, highlights := Map.empty,
       paragraphs := splitText t, activeParagraphIndex := None,
       calls := calls s @ [WindowScrollTo, Cancel], isSpeaking := False,
       isContinuousRef := False, isAutoAdvancingRef := False\<rparr>"
proof -
  have c: "t \<noteq> content (handleFileUpload s)"
    using assms by (simp add: handleFileUpload_def)
  show ?thesis
    unfolding document_load_def reader_onload_changed [OF c]
    by (simp add: handleFileUpload_def)
qed

lemma stale_highlight_survives:
  assumes "t \<noteq> content s"
  shows "highlights_at
           (highlights (reader_onload t (addHighlight index start end' x now (handleFileUpload s))))
           index
         = [\<lparr>hl_start = start, hl_end = end', hl_text = x, hl_id = toString now\<rparr>]"
  by (simp add: reader_onload_keeps_stores addHighlight_def handleFileUpload_def
      highlights_at_def Let_def)

section \<open>Sessions reachable by events\<close>

lemma engine_append: "engine p (cs @ ds) = engine (engine p cs) ds"
  by (induction p cs rule: engine.induct) simp_all

lemma engine_quiet:
  "\<forall>c \<in> set cs. c \<noteq> Cancel \<and> \<not> is_speak c \<Longrightarrow> engine p cs = p"
  by (induction p cs rule: engine.induct) simp_all

lemma consistent_None: "consistent s None \<longleftrightarrow> \<not> isAutoAdvancingRef s"
  by (simp add: consistent_def)

lemma consistent_idle: "consistent s p \<Longrightarrow> \<not> isSpeaking s \<Longrightarrow> p = None"
  by (cases p) (simp_all add: consistent_def)

lemma consistent_no_index: "consistent s p \<Longrightarrow> activeParagraphIndex s = None \<Longrightarrow> p = None"
  by (cases p) (simp_all add: consistent_def)

lemma consistent_stop:
  assumes "calls s = calls s0 @ cs"
  shows "consistent (handleStop s) (engine p (new_calls s0 (handleStop s)))"
  using assms by (simp add: consistent_def handleStop_def new_calls_def engine_append)

lemma consistent_speakText:
  assumes "consistent s p" and "activeParagraphIndex s = Some i"
    and "calls s = calls s0 @ cs" and "\<forall>c \<in> set cs. c \<noteq> Cancel \<and> \<not> is_speak c"
  shows "consistent (speakText i s) (engine p (new_calls s0 (speakText i s)))"
proof (cases "i < 0 \<or> i \<ge> int (length (paragraphs s))")
  case True
  then have "speakText i s = s" by (simp add: speakText_def)
  with assms show ?thesis by (simp add: new_calls_def engine_quiet)
next
  case False
  with assms show ?thesis
    by (simp add: speakText_def Let_def new_calls_def engine_append consistent_def)
qed

lemma navigates_refl: "navigates s s"
  by (simp add: navigates_def new_calls_def)

lemma navigates_trans:
  assumes "navigates s s1" "navigates s1 s2"
  shows "navigates s s2"
proof -
  from assms(1) obtain cs where cs: "calls s1 = calls s @ cs"
    "list_all (\<lambda>c. c \<noteq> Cancel \<and> \<not> is_speak c) cs"
    unfolding navigates_def new_calls_def by (metis append_take_drop_id)
  from assms(2) obtain ds where ds: "calls s2 = calls s1 @ ds"
    "list_all (\<lambda>c. c \<noteq> Cancel \<and> \<not> is_speak c) ds"
    unfolding navigates_def new_calls_def by (metis append_take_drop_id)
  from cs ds have "take (length (calls s)) (calls s2) = calls s"
    and "list_all (\<lambda>c. c \<noteq> Cancel \<and> \<not> is_speak c) (new_calls s s2)"
    by (simp_all add: new_calls_def)
  with assms show ?thesis
    unfolding navigates_def by auto
qed

lemma navigates_scroll: "navigates s (scrollIntoView i s)"
  by (simp add: navigates_def scrollIntoView_def new_calls_def)

lemma navigates_voice: "navigates s (voiceNext s)" "navigates s (voicePrevious s)"
  by (simp_all add: navigates_def voiceNext_def voicePrevious_def scrollIntoView_def Let_def
      new_calls_def)

lemma navigates_key:
  "navigates s (keySpace k s)" "navigates s (keyArrowDown k s)" "navigates s (keyArrowUp k s)"
  by (simp_all add: navigates_def keySpace_def keyArrowDown_def keyArrowUp_def
      scrollIntoView_def Let_def new_calls_def)

lemma navigates_handleKeyDown: "navigates s (handleKeyDown k s)"
proof (cases "isInput k")
  case True
  then show ?thesis by (simp add: handleKeyDown_def Let_def navigates_key)
next
  case False
  have "navigates s (keyArrowUp k (keyArrowDown k (keySpace k s)))"
    by (blast intro: navigates_trans navigates_key)
  with False show ?thesis by (simp add: handleKeyDown_def Let_def)
qed

lemma navigates_click: "navigates s (handleParagraphClick i s)"
  by (simp add: navigates_def handleParagraphClick_def new_calls_def)

lemma navigates_settings: "navigates s (onUpdateSettings st s)"
  by (simp add: navigates_def onUpdateSettings_def new_calls_def)

lemma commit_navigates:
  assumes c: "consistent s p" and n: "navigates s s1"
  shows "consistent (commit (activeParagraphIndex s) s1)
           (engine p (new_calls s (commit (activeParagraphIndex s) s1)))"
proof -
  from n obtain cs where ca: "calls s1 = calls s @ cs"
    and qu: "\<forall>c \<in> set cs. c \<noteq> Cancel \<and> \<not> is_speak c"
    unfolding navigates_def new_calls_def list_all_iff by (metis append_take_drop_id)
  from n have sp: "isSpeaking s1 = isSpeaking s"
    and fl: "isAutoAdvancingRef s1 = isAutoAdvancingRef s"
    and pa: "paragraphs s1 = paragraphs s"
    and ix: "activeParagraphIndex s1 = activeParagraphIndex s \<or> activeParagraphIndex s1 \<noteq> None"
    unfolding navigates_def by simp_all
  show ?thesis
  proof (cases "activeParagraphIndex s1 = activeParagraphIndex s")
    case True
    then have "commit (activeParagraphIndex s) s1 = s1" by (simp add: commit_def)
    moreover have "engine p (new_calls s s1) = p"
      using ca qu by (simp add: new_calls_def engine_quiet)
    moreover have "consistent s1 p"
      using c sp fl pa True by (simp add: consistent_def split: option.splits)
    ultimately show ?thesis by simp
  next
    case False
    with ix obtain j where j: "activeParagraphIndex s1 = Some j" by auto
    from c fl have nf: "\<not> isAutoAdvancingRef s1" by (simp add: consistent_def)
    show ?thesis
    proof (cases "isSpeaking s1")
      case True
      with False j nf have "commit (activeParagraphIndex s) s1 = handleStop s1"
        by (simp add: commit_def activeParagraphEffect_def)
      with consistent_stop [OF ca, of p] show ?thesis by simp
    next
      case F: False
      with False j nf have e: "commit (activeParagraphIndex s) s1 = s1"
        by (simp add: commit_def activeParagraphEffect_def)
      from F sp c have "p = None" by (simp add: consistent_idle)
      with e nf ca qu show ?thesis
        by (simp add: new_calls_def engine_quiet consistent_None)
    qed
  qed
qed

lemma commit_stop:
  assumes "consistent s p"
  shows "consistent (commit (activeParagraphIndex s) (handleStop s))
           (engine p (new_calls s (commit (activeParagraphIndex s) (handleStop s))))"
proof -
  have "commit (activeParagraphIndex s) (handleStop s) = handleStop s"
    by (simp add: commit_def handleStop_def)
  with consistent_stop [of s s "[]" p] show ?thesis by simp
qed

lemma commit_speakCurrent:
  assumes "consistent s p"
  shows "consistent (commit (activeParagraphIndex s) (handleSpeakCurrent s))
           (engine p (new_calls s (commit (activeParagraphIndex s) (handleSpeakCurrent s))))"
proof (cases "activeParagraphIndex s")
  case None
  with assms show ?thesis
    by (simp add: handleSpeakCurrent_def commit_def new_calls_def)
next
  case (Some i)
  let ?s1 = "s\<lparr>isContinuousRef := False\<rparr>"
  have c1: "consistent ?s1 p" using assms by (cases p) (simp_all add: consistent_def)
  have a: "activeParagraphIndex (speakText i ?s1) = activeParagraphIndex s"
    by (simp add: speakText_def Let_def)
  have "consistent (speakText i ?s1) (engine p (new_calls s (speakText i ?s1)))"
    by (rule consistent_speakText [OF c1, where cs = "[]"]) (simp_all add: Some)
  with Some a show ?thesis
    by (simp add: handleSpeakCurrent_def commit_def)
qed

lemma commit_speakAll:
  assumes "consistent s p"
  shows "consistent (commit (activeParagraphIndex s) (handleSpeakAll s))
           (engine p (new_calls s (commit (activeParagraphIndex s) (handleSpeakAll s))))"
proof (cases "activeParagraphIndex s")
  case None
  with assms have p: "p = None" by (simp add: consistent_no_index)
  let ?s1 = "s\<lparr>activeParagraphIndex := Some 0, isContinuousRef := True, isAutoAdvancingRef := True\<rparr>"
  let ?s2 = "scrollIntoView 0 (?s1\<lparr>isAutoAdvancingRef := False\<rparr>)"
  have e: "commit (activeParagraphIndex s) (handleSpeakAll s) = speakText 0 ?s2"
    using None by (simp add: handleSpeakAll_def commit_def activeParagraphEffect_def)
  have c2: "consistent ?s2 None" by (simp add: consistent_None scrollIntoView_def)
  obtain cs where cs: "calls ?s2 = calls s @ cs" "\<forall>c \<in> set cs. c \<noteq> Cancel \<and> \<not> is_speak c"
    by (cases "0 < length (paragraphs s)") (simp_all add: scrollIntoView_def)
  have a2: "activeParagraphIndex ?s2 = Some 0" by (simp add: scrollIntoView_def)
  from consistent_speakText [OF c2 a2 cs] e p show ?thesis by simp
next
  case (Some i)
  let ?s1 = "s\<lparr>isContinuousRef := True\<rparr>"
  have c1: "consistent ?s1 p" using assms by (cases p) (simp_all add: consistent_def)
  have a: "activeParagraphIndex (speakText i ?s1) = activeParagraphIndex s"
    by (simp add: speakText_def Let_def)
  have "consistent (speakText i ?s1) (engine p (new_calls s (speakText i ?s1)))"
    by (rule consistent_speakText [OF c1, where cs = "[]"]) (simp_all add: Some)
  with Some a show ?thesis
    by (simp add: handleSpeakAll_def commit_def)
qed

lemma consistent_recorded:
  "consistent (s\<lparr>lastVoiceCommand := c\<rparr>) p = consistent s p"
  by (cases p) (simp_all add: consistent_def)

lemma commit_run_action:
  assumes "consistent s p"
  shows "consistent (commit (activeParagraphIndex s) (run_action a s))
           (engine p (new_calls s (commit (activeParagraphIndex s) (run_action a s))))"
proof (cases a)
  case ActNext
  then show ?thesis using commit_navigates [OF assms navigates_voice(1)] by simp
next
  case ActPrevious
  then show ?thesis using commit_navigates [OF assms navigates_voice(2)] by simp
next
  case ActSpeakAll
  then show ?thesis using commit_speakAll [OF assms] by simp
next
  case ActStop
  then show ?thesis using commit_stop [OF assms] by simp
next
  case (ActLoupe b)
  then show ?thesis using commit_navigates [OF assms navigates_settings] by simp
next
  case (ActFocusMode b)
  then show ?thesis using commit_navigates [OF assms navigates_settings] by simp
next
  case (ActBionic b)
  then show ?thesis using commit_navigates [OF assms navigates_settings] by simp
qed

lemma step_user:
  assumes c: "consistent s p" and u: "is_user e"
  shows "consistent (dispatch e s) (engine p (new_calls s (dispatch e s)))"
proof (cases e)
  case (ParagraphClick i)
  then show ?thesis
    using commit_navigates [OF c navigates_click] by (simp add: dispatch_def)
next
  case (KeyDown k)
  then show ?thesis
    using commit_navigates [OF c navigates_handleKeyDown] by (simp add: dispatch_def)
next
  case (FinalTranscript cmd)
  let ?s = "s\<lparr>lastVoiceCommand := cmd\<rparr>"
  have c': "consistent ?s p" using c by (simp add: consistent_recorded)
  have nc: "new_calls s x = new_calls ?s x" for x by (simp add: new_calls_def)
  show ?thesis
  proof (cases "first_match cmd")
    case None
    have "navigates s ?s" by (simp add: navigates_def new_calls_def)
    from commit_navigates [OF c this] None FinalTranscript show ?thesis
      by (simp add: dispatch_def processCommand_first_match)
  next
    case (Some a)
    from commit_run_action [OF c', of a] Some FinalTranscript show ?thesis
      by (simp add: dispatch_def processCommand_first_match nc)
  qed
next
  case PlayParagraphButton
  then show ?thesis using commit_speakCurrent [OF c] by (simp add: dispatch_def)
next
  case ReadAllButton
  then show ?thesis using commit_speakAll [OF c] by (simp add: dispatch_def)
next
  case StopButton
  then show ?thesis using commit_stop [OF c] by (simp add: dispatch_def)
next
  case (UtteranceEnd utt)
  with u show ?thesis by simp
next
  case (UtteranceError utt)
  with u show ?thesis by simp
qed

lemma step_ended:
  assumes c: "consistent s (Some utt)"
  shows "consistent (dispatch (UtteranceEnd utt) s)
           (engine None (new_calls s (dispatch (UtteranceEnd utt) s)))"
proof (cases "isContinuousRef s \<and> u_index utt < int (u_count utt) - 1")
  case True
  from c have h: "u_count utt = length (paragraphs s)" "0 \<le> u_index utt"
    "activeParagraphIndex s = Some (u_index utt)"
    by (simp_all add: consistent_def)
  from h(3) have ne: "activeParagraphIndex s \<noteq> Some (u_index utt + 1)" by simp
  from True h have lt: "u_index utt < int (length (paragraphs s)) - 1" by simp
  show ?thesis
    unfolding dispatch_end_advance [OF conjunct1 [OF True] h(1,2) lt ne]
    using lt h(2) by (simp add: consistent_def new_calls_def)
next
  case False
  show ?thesis
    unfolding dispatch_end_finish [OF False]
    using c by (simp add: consistent_def new_calls_def)
qed

lemma step_failed:
  assumes c: "consistent s (Some utt)"
  shows "consistent (dispatch (UtteranceError utt) s)
           (engine None (new_calls s (dispatch (UtteranceError utt) s)))"
  using c by (simp add: dispatch_def commit_def utterance_onerror_def consistent_def new_calls_def)

lemma step_load:
  assumes c: "consistent s p"
  shows "consistent (document_load t s) (engine p (new_calls s (document_load t s)))"
proof (cases "t = content s")
  case True
  then have "document_load t s
             = (handleFileUpload s)\<lparr>calls := calls s @ [WindowScrollTo]\<rparr>"
    by (simp add: document_load_def reader_onload_def Let_def handleFileUpload_def)
  with c show ?thesis
    by (cases p) (simp_all add: handleFileUpload_def consistent_def new_calls_def)
next
  case False
  then have "t \<noteq> content (handleFileUpload s)" by (simp add: handleFileUpload_def)
  from reader_onload_changed [OF this] show ?thesis
    by (simp add: document_load_def handleFileUpload_def consistent_def new_calls_def)
qed

lemma reachable_consistent: "reachable s p \<Longrightarrow> consistent s p"
proof (induction rule: reachable.induct)
  case (idle s)
  then show ?case by (simp add: consistent_None)
next
  case (user s p e)
  then show ?case by (simp add: step_user)
next
  case (load s p t)
  then show ?case by (simp add: step_load)
next
  case (ended s utt)
  then show ?case by (simp add: step_ended)
next
  case (failed s utt)
  then show ?case by (simp add: step_failed)
next
  case (edit s p st an hl vs)
  then show ?case by (cases p) (simp_all add: consistent_def)
qed

section \<open>Font size\<close>

lemma toolbar_fontSize_range:
  assumes "12 \<le> fontSize (settings s)" "fontSize (settings s) \<le> 64"
  shows "12 \<le> fontSize (settings (decreaseFontSize s))"
    and "fontSize (settings (decreaseFontSize s)) \<le> 64"
    and "12 \<le> fontSize (settings (increaseFontSize s))"
    and "fontSize (settings (increaseFontSize s)) \<le> 64"
  using assms by (simp_all add: decreaseFontSize_def increaseFontSize_def onUpdateSettings_def)

lemma handleKey_fontSize_range:
  assumes "12 \<le> fontSize (settings s)" "fontSize (settings s) \<le> 72"
  shows "12 \<le> fontSize (settings (handleKey e s))"
    and "fontSize (settings (handleKey e s)) \<le> 72"
  using assms by (auto simp: handleKey_def Let_def js_def)

section \<open>Claims\<close>

text \<open>
  C7. Segmenting a raw document splits it at the newline separators (the lines contain no
  newline and joined by newlines give the document back), keeps exactly the lines whose
  trimmed form has non-zero length, each with its untrimmed content and in document
  order, so that the retained lines are numbered contiguously from 0 by their
  position. The document \<open>A\n\nB\n\<close> gives the two paragraphs \<open>A\<close> and \<open>B\<close> at
  positions 0 and 1; two spaces and a newline give no paragraph.
\<close>

theorem C7_segmenter:
  "join_newline (split_newline doc) = doc
   \<and> (\<forall>l \<in> set (split_newline doc). newline \<notin> set l)
   \<and> splitText doc = [l \<leftarrow> split_newline doc. length (js_trim l) \<noteq> 0]
   \<and> (\<forall>l \<in> set (split_newline doc).
         l \<in> set (splitText doc) \<longleftrightarrow> length (js_trim l) \<noteq> 0)
   \<and> splitText (js ''A\<newline>\<newline>B\<newline>'') = [js ''A'', js ''B'']
   \<and> splitText (js ''A\<newline>\<newline>B\<newline>'') ! 0 = js ''A''
   \<and> splitText (js ''A\<newline>\<newline>B\<newline>'') ! 1 = js ''B''
   \<and> splitText (js ''  \<newline>'') = []"
proof -
  have ex1: "splitText (js ''A\<newline>\<newline>B\<newline>'') = [js ''A'', js ''B'']"
    by (simp add: splitText_def js_def newline_def js_trim_def is_space_def)
  have ex2: "splitText (js ''  \<newline>'') = []"
    by (simp add: splitText_def js_def newline_def js_trim_def is_space_def)
  show ?thesis
    using ex1 ex2
    by (simp add: join_split_newline split_newline_no_newline) (simp add: splitText_def)
qed

theorem C7_segmenter_witness:
  "js ''A'' \<in> set (splitText (js ''A\<newline>  \<newline>B''))
   \<and> js ''  '' \<notin> set (splitText (js ''A\<newline>  \<newline>B''))
   \<and> newline \<notin> set (js ''A'')"
proof -
  let ?doc = "js ''A\<newline>  \<newline>B''"
  have lines: "split_newline ?doc = [js ''A'', js ''  '', js ''B'']"
    by (simp add: js_def newline_def)
  have t1: "length (js_trim (js ''A'')) \<noteq> 0"
    by (simp add: js_def js_trim_def is_space_def)
  have t2: "length (js_trim (js ''  '')) = 0"
    by (simp add: js_def js_trim_def is_space_def)
  have a: "\<forall>l \<in> set (split_newline ?doc). newline \<notin> set l"
    and b: "\<forall>l \<in> set (split_newline ?doc).
              l \<in> set (splitText ?doc) \<longleftrightarrow> length (js_trim l) \<noteq> 0"
    using C7_segmenter [of ?doc] by blast+
  have m1: "js ''A'' \<in> set (split_newline ?doc)" and m2: "js ''  '' \<in> set (split_newline ?doc)"
    by (simp_all only: lines list.set insert_iff simp_thms)
  from b m1 t1 have "js ''A'' \<in> set (splitText ?doc)" by blast
  moreover from b m2 t2 have "js ''  '' \<notin> set (splitText ?doc)" by blast
  moreover from a m1 have "newline \<notin> set (js ''A'')" by blast
  ultimately show ?thesis by blast
qed

text \<open>
  C5. With bionic reading on, the transform of a string is the image, part by part, of
  its split at the maximal whitespace runs: the parts concatenate to the string, they
  alternate whitespace-free tokens and non-empty whitespace separators, a separator is
  passed through as it is, and a token of length \<open>L\<close> becomes its first \<open>B\<close> characters
  in bold followed by the others dimmed, where \<open>B\<close> is 1 for \<open>L \<le> 3\<close>, 2 for
  \<open>3 < L \<le> 5\<close> and \<open>ceil(0.4 * L)\<close> beyond, which never exceeds \<open>L\<close> for a non-empty
  token. \<open>I\<close> gives bold \<open>I\<close> and nothing dimmed, \<open>cat\<close> bold \<open>c\<close> and \<open>at\<close>,
  \<open>hello\<close> bold \<open>he\<close> and \<open>llo\<close>, \<open>reading\<close> bold \<open>rea\<close> and \<open>ding\<close>.
\<close>

theorem C5_bionic_transform:
  assumes "isBionicReading st"
  shows "applyBionicReading st t = Pieces (map bionic_part (split_whitespace t))
   \<and> concat (split_whitespace t) = t
   \<and> tokens_seps True (split_whitespace t)
   \<and> content_text (applyBionicReading st t) = t
   \<and> (\<forall>ws. ws \<noteq> [] \<and> list_all is_space ws \<longrightarrow> bionic_part ws = Str ws)
   \<and> (\<forall>tok. list_all (\<lambda>c. \<not> is_space c) tok \<longrightarrow>
         bionic_part tok = Fragment (take (boldLength (length tok)) tok)
                                    (drop (boldLength (length tok)) tok))
   \<and> (\<forall>L. boldLength L = (if L \<le> 3 then 1 else if L \<le> 5 then 2 else nat \<lceil>0.4 * real L\<rceil>))
   \<and> (\<forall>L. 0 < L \<longrightarrow> boldLength L \<le> L)
   \<and> applyBionicReading st (js ''I'') = Pieces [Fragment (js ''I'') []]
   \<and> applyBionicReading st (js ''cat'') = Pieces [Fragment (js ''c'') (js ''at'')]
   \<and> applyBionicReading st (js ''hello'') = Pieces [Fragment (js ''he'') (js ''llo'')]
   \<and> applyBionicReading st (js ''reading'') = Pieces [Fragment (js ''rea'') (js ''ding'')]
   \<and> applyBionicReading st (js ''a cat  reading'') =
       Pieces [Fragment (js ''a'') [], Str (js '' ''), Fragment (js ''c'') (js ''at''),
               Str (js ''  ''), Fragment (js ''rea'') (js ''ding'')]"
proof -
  have app: "applyBionicReading st u = Pieces (map bionic_part (split_whitespace u))" for u
    using assms by (simp add: applyBionicReading_def)
  have ct: "content_text (Pieces (map bionic_part (split_whitespace t))) = t"
  proof -
    have "concat (map piece_text (map bionic_part (split_whitespace t)))
          = concat (split_whitespace t)"
      by (simp add: comp_def piece_text_bionic_part)
    then show ?thesis by (simp add: concat_split_whitespace)
  qed
  have bl: "\<forall>L. boldLength L = (if L \<le> 3 then 1 else if L \<le> 5 then 2 else nat \<lceil>0.4 * real L\<rceil>)"
    using boldLength_cases by blast
  have tok: "\<forall>tok. list_all (\<lambda>c. \<not> is_space c) tok \<longrightarrow>
         bionic_part tok = Fragment (take (boldLength (length tok)) tok)
                                    (drop (boldLength (length tok)) tok)"
    using bionic_part_token by blast
  have sp: "\<forall>ws. ws \<noteq> [] \<and> list_all is_space ws \<longrightarrow> bionic_part ws = Str ws"
    using bionic_part_space by blast
  have le: "\<forall>L. 0 < L \<longrightarrow> boldLength L \<le> L"
    using boldLength_le by blast
  show ?thesis
    unfolding app bionic_examples
    using ct bl tok sp le concat_split_whitespace [of t] tokens_seps_split_whitespace [of t]
    by blast
qed

theorem C5_bionic_transform_witness:
  "isBionicReading (DEFAULT_SETTINGS\<lparr>isBionicReading := True\<rparr>)
   \<and> applyBionicReading (DEFAULT_SETTINGS\<lparr>isBionicReading := True\<rparr>) (js ''hello'')
       = Pieces [Fragment (js ''he'') (js ''llo'')]
   \<and> bionic_part (js ''  '') = Str (js ''  '')
   \<and> bionic_part (js ''cat'') = Fragment (take (boldLength 3) (js ''cat'')) (drop (boldLength 3) (js ''cat''))
   \<and> boldLength 7 \<le> 7"
proof -
  let ?st = "DEFAULT_SETTINGS\<lparr>isBionicReading := True\<rparr>"
  have on: "isBionicReading ?st" by simp
  have w: "js ''  '' \<noteq> [] \<and> list_all is_space (js ''  '')"
    by (simp add: js_def is_space_def)
  have k: "list_all (\<lambda>c. \<not> is_space c) (js ''cat'')"
    by (simp add: js_def is_space_def)
  have len: "length (js ''cat'') = 3" by (simp add: js_def)
  note c5 = C5_bionic_transform [OF on, of "js ''hello''"]
  from c5 have "applyBionicReading ?st (js ''hello'') = Pieces [Fragment (js ''he'') (js ''llo'')]"
    by blast
  moreover from c5 w have "bionic_part (js ''  '') = Str (js ''  '')" by blast
  moreover from c5 k
  have "bionic_part (js ''cat'')
        = Fragment (take (boldLength (length (js ''cat''))) (js ''cat''))
                   (drop (boldLength (length (js ''cat''))) (js ''cat''))"
    by blast
  moreover from c5 have "(0::nat) < 7 \<longrightarrow> boldLength 7 \<le> 7" by blast
  ultimately show ?thesis using on len by simp
qed

text \<open>
  C3, as the specification states it, fails on highlights that lie outside the text:
  the walk emits the plain run before a highlight whenever \<open>start > lastIndex\<close>,
  also when that run is empty. On the text \<open>abc\<close> with the highlights \<open>[5, 7)\<close> and
  \<open>[10, 12)\<close> the rendering has an empty plain run between the two marks, which the
  stated resolution does not have.
\<close>

theorem C3_counterexample:
  "runs_of (renderParagraphContent DEFAULT_SETTINGS
      [0 \<mapsto> [\<lparr>hl_start = 5, hl_end = 7, hl_text = [], hl_id = js ''1''\<rparr>,
              \<lparr>hl_start = 10, hl_end = 12, hl_text = [], hl_id = js ''2''\<rparr>]] (js ''abc'') 0)
   = [PlainRun (js ''abc''), HighlightRun [], PlainRun [], HighlightRun []]
   \<and> spec_render (js ''abc'')
        [\<lparr>hl_start = 5, hl_end = 7, hl_text = [], hl_id = js ''1''\<rparr>,
         \<lparr>hl_start = 10, hl_end = 12, hl_text = [], hl_id = js ''2''\<rparr>]
     = [PlainRun (js ''abc''), HighlightRun [], HighlightRun []]
   \<and> runs_of (renderParagraphContent DEFAULT_SETTINGS
      [0 \<mapsto> [\<lparr>hl_start = 5, hl_end = 7, hl_text = [], hl_id = js ''1''\<rparr>,
              \<lparr>hl_start = 10, hl_end = 12, hl_text = [], hl_id = js ''2''\<rparr>]] (js ''abc'') 0)
     \<noteq> spec_render (js ''abc'')
        [\<lparr>hl_start = 5, hl_end = 7, hl_text = [], hl_id = js ''1''\<rparr>,
         \<lparr>hl_start = 10, hl_end = 12, hl_text = [], hl_id = js ''2''\<rparr>]"
  by (simp add: renderParagraphContent_def spec_render_def styled_def DEFAULT_SETTINGS_def
      js_slice_def js_slice_from_def Let_def js_def)

text \<open>
  C3, amended. For every paragraph text and every list of highlights on it none of
  which starts beyond the end of the text or ends before its beginning (as is the case
  when \<open>0 \<le> start < end \<le> len(text)\<close>), the rendering is the resolution the
  specification describes: the highlights are sorted by start, ascending and stably,
  and walked from \<open>lastIndex = 0\<close>; a highlight that starts before \<open>lastIndex\<close> is
  dropped whole; any other one emits the plain run \<open>text[lastIndex:start]\<close> if
  non-empty, then the highlighted run \<open>text[start:end]\<close>, and moves \<open>lastIndex\<close> to
  \<open>end\<close>; a non-empty rest \<open>text[lastIndex:]\<close> is a last plain run. On a text of
  length at least 8, the highlights \<open>[0, 5)\<close> and \<open>[3, 8)\<close> give the one highlighted
  run \<open>[0, 5)\<close>, and \<open>[0, 5)\<close> and \<open>[5, 8)\<close> give both.
\<close>

theorem C3_overlap_resolution:
  assumes "\<forall>h \<in> set (highlights_at hls index).
             hl_start h \<le> int (length t) \<and> 0 \<le> hl_end h"
  shows "runs_of (renderParagraphContent st hls t index)
           = spec_render t (highlights_at hls index)
   \<and> spec_render t (highlights_at hls index)
       = spec_walk t (sort_key hl_start (highlights_at hls index)) 0
   \<and> sorted (map hl_start (sort_key hl_start (highlights_at hls index)))
   \<and> (\<forall>k. filter (\<lambda>h. hl_start h = k) (sort_key hl_start (highlights_at hls index))
           = filter (\<lambda>h. hl_start h = k) (highlights_at hls index))
   \<and> (8 \<le> length u \<longrightarrow>
        runs_of (renderParagraphContent st
            (hls(index \<mapsto> [\<lparr>hl_start = 0, hl_end = 5, hl_text = xa, hl_id = ka\<rparr>,
                                  \<lparr>hl_start = 3, hl_end = 8, hl_text = xb, hl_id = kb\<rparr>])) u index)
        = [HighlightRun (take 5 u), PlainRun (drop 5 u)])
   \<and> (8 \<le> length u \<longrightarrow>
        runs_of (renderParagraphContent st
            (hls(index \<mapsto> [\<lparr>hl_start = 0, hl_end = 5, hl_text = xa, hl_id = ka\<rparr>,
                                  \<lparr>hl_start = 5, hl_end = 8, hl_text = xb, hl_id = kb\<rparr>])) u index)
        = [HighlightRun (take 5 u), HighlightRun (take 3 (drop 5 u))]
          @ (if 8 < length u then [PlainRun (drop 8 u)] else []))"
proof -
  have a: "runs_of (renderParagraphContent st hls t index)
           = spec_render t (highlights_at hls index)"
    using assms by (rule runs_of_render)
  have b: "\<forall>k. filter (\<lambda>h. hl_start h = k) (sort_key hl_start (highlights_at hls index))
           = filter (\<lambda>h. hl_start h = k) (highlights_at hls index)"
    by (simp add: sort_key_stable)
  have c: "sorted (map hl_start (sort_key hl_start (highlights_at hls index)))"
    by (rule sorted_sort_key)
  show ?thesis
    using a b c overlap_example [of u st hls index xa ka xb kb]
      adjacent_example [of u st hls index xa ka xb kb]
    unfolding spec_render_def by blast
qed

theorem C3_overlap_resolution_witness:
  "runs_of (renderParagraphContent DEFAULT_SETTINGS
        [0 \<mapsto> [\<lparr>hl_start = 3, hl_end = 8, hl_text = js ''lo wo'', hl_id = js ''2''\<rparr>,
                \<lparr>hl_start = 0, hl_end = 5, hl_text = js ''hello'', hl_id = js ''1''\<rparr>]]
        (js ''hello world'') 0)
     = [HighlightRun (js ''hello''), PlainRun (js '' world'')]
   \<and> runs_of (renderParagraphContent DEFAULT_SETTINGS
        [0 \<mapsto> [\<lparr>hl_start = 0, hl_end = 5, hl_text = js ''hello'', hl_id = js ''1''\<rparr>,
                \<lparr>hl_start = 5, hl_end = 8, hl_text = js '' wo'', hl_id = js ''2''\<rparr>]]
        (js ''hello world'') 0)
     = [HighlightRun (js ''hello''), HighlightRun (js '' wo''), PlainRun (js ''rld'')]"
proof -
  let ?H = "[0 \<mapsto> [\<lparr>hl_start = 3, hl_end = 8, hl_text = js ''lo wo'', hl_id = js ''2''\<rparr>,
                \<lparr>hl_start = 0, hl_end = 5, hl_text = js ''hello'', hl_id = js ''1''\<rparr>]]"
  let ?t = "js ''hello world''"
  have len: "length ?t = 11" by (simp add: js_def)
  have hyp: "\<forall>h \<in> set (highlights_at ?H 0). hl_start h \<le> int (length ?t) \<and> 0 \<le> hl_end h"
    by (simp add: highlights_at_def len)
  have u: "(8::nat) \<le> length ?t" by (simp add: len)
  note c3 = C3_overlap_resolution [OF hyp, where st = DEFAULT_SETTINGS and u = ?t
      and xa = "js ''hello''" and ka = "js ''1''" and xb = "js '' wo''" and kb = "js ''2''"]
  have r1: "runs_of (renderParagraphContent DEFAULT_SETTINGS ?H ?t 0) = spec_render ?t (highlights_at ?H 0)"
    using c3 by blast
  have s1: "spec_render ?t (highlights_at ?H 0) = [HighlightRun (js ''hello''), PlainRun (js '' world'')]"
    by (simp add: spec_render_def highlights_at_def js_slice_def js_slice_from_def Let_def js_def)
  have r2: "runs_of (renderParagraphContent DEFAULT_SETTINGS
        (?H(0 \<mapsto> [\<lparr>hl_start = 0, hl_end = 5, hl_text = js ''hello'', hl_id = js ''1''\<rparr>,
                \<lparr>hl_start = 5, hl_end = 8, hl_text = js '' wo'', hl_id = js ''2''\<rparr>]))
        ?t 0)
     = [HighlightRun (take 5 ?t), HighlightRun (take 3 (drop 5 ?t))]
          @ (if 8 < length ?t then [PlainRun (drop 8 ?t)] else [])"
    using c3 u by blast
  have e: "[HighlightRun (take 5 ?t), HighlightRun (take 3 (drop 5 ?t))]
          @ (if 8 < length ?t then [PlainRun (drop 8 ?t)] else [])
        = [HighlightRun (js ''hello''), HighlightRun (js '' wo''), PlainRun (js ''rld'')]"
    by (simp add: js_def)
  show ?thesis using r1 s1 r2 e by simp
qed

text \<open>
  C10. For every paragraph text and every stored list of highlights with
  \<open>0 \<le> start \<le> end\<close>, the characters of all runs of the rendering, read in order
  (the spans, the marks and, with bionic reading on, the bold prefix and the dimmed
  suffix of every piece inside them), are the paragraph text: rendering inserts,
  drops, duplicates and reorders nothing, also when overlapping highlights are
  discarded.
\<close>

theorem C10_render_preserves_text:
  assumes "\<forall>h \<in> set (highlights_at hls index). 0 \<le> hl_start h \<and> hl_start h \<le> hl_end h"
  shows "rendered_text (renderParagraphContent st hls t index) = t"
  using assms by (rule rendered_text_render)

theorem C10_render_preserves_text_witness:
  "rendered_text (renderParagraphContent (DEFAULT_SETTINGS\<lparr>isBionicReading := True\<rparr>)
        [0 \<mapsto> [\<lparr>hl_start = 3, hl_end = 8, hl_text = js ''lo wo'', hl_id = js ''2''\<rparr>,
                \<lparr>hl_start = 0, hl_end = 5, hl_text = js ''hello'', hl_id = js ''1''\<rparr>]]
        (js ''hello world'') 0)
     = js ''hello world''"
proof -
  let ?H = "[0 \<mapsto> [\<lparr>hl_start = 3, hl_end = 8, hl_text = js ''lo wo'', hl_id = js ''2''\<rparr>,
                \<lparr>hl_start = 0, hl_end = 5, hl_text = js ''hello'', hl_id = js ''1''\<rparr>]]"
  have hyp: "\<forall>h \<in> set (highlights_at ?H 0). 0 \<le> hl_start h \<and> hl_start h \<le> hl_end h"
    by (simp add: highlights_at_def)
  show ?thesis
    using C10_render_preserves_text [OF hyp, of "DEFAULT_SETTINGS\<lparr>isBionicReading := True\<rparr>"
        "js ''hello world''"]
    by simp
qed

text \<open>
  C1. Let the speech engine report the end of the utterance of paragraph \<open>i\<close>, submitted
  over the current list of \<open>n\<close> paragraphs, while the active index is not yet \<open>i + 1\<close>
  (it is \<open>i\<close>, the paragraph voiced). In continuous playback with \<open>i < n - 1\<close> the
  handler marks the transition programmatic and leaves the playback state alone, and
  after the effect the active index is exactly \<open>i + 1\<close>, paragraph \<open>i + 1\<close> has been
  scrolled into view and submitted as the next utterance, and playback is still
  continuous: no state in between is \<open>Idle\<close>. If playback is not continuous or
  \<open>i = n - 1\<close>, playback becomes \<open>Idle\<close> and nothing else happens. In every session
  reached by events the utterance in flight is that of the active paragraph of the
  current list, so the engine's report always meets these conditions.
\<close>

theorem C1_utterance_finished:
  assumes "u_count utt = length (paragraphs s)"
    and "0 \<le> u_index utt"
    and "activeParagraphIndex s \<noteq> Some (u_index utt + 1)"
  shows "(isContinuousRef s \<and> u_index utt < int (length (paragraphs s)) - 1 \<longrightarrow>
            isAutoAdvancingRef (utterance_onend utt s)
          \<and> isSpeaking (utterance_onend utt s) = isSpeaking s
          \<and> isContinuousRef (utterance_onend utt s)
          \<and> dispatch (UtteranceEnd utt) s =
              s\<lparr>activeParagraphIndex := Some (u_index utt + 1),
                isAutoAdvancingRef := False,
                isSpeaking := True,
                calls := calls s @ [ScrollIntoView (u_index utt + 1), Cancel,
                  Speak \<lparr>u_text = paragraphs s ! nat (u_index utt + 1),
                         u_voice = find (\<lambda>v. v = speechVoiceURI (settings s)) (voices s),
                         u_index = u_index utt + 1, u_count = length (paragraphs s)\<rparr>]\<rparr>
          \<and> activeParagraphIndex (dispatch (UtteranceEnd utt) s) = Some (u_index utt + 1)
          \<and> playbackState (dispatch (UtteranceEnd utt) s) = SpeakingContinuous)
       \<and> (\<not> isContinuousRef s \<or> u_index utt = int (length (paragraphs s)) - 1 \<longrightarrow>
            dispatch (UtteranceEnd utt) s = s\<lparr>isSpeaking := False, isContinuousRef := False\<rparr>
          \<and> playbackState (dispatch (UtteranceEnd utt) s) = Idle)
       \<and> (reachable r (Some v) \<longrightarrow>
            u_count v = length (paragraphs r) \<and> 0 \<le> u_index v
          \<and> u_index v < int (length (paragraphs r))
          \<and> activeParagraphIndex r = Some (u_index v)
          \<and> activeParagraphIndex r \<noteq> Some (u_index v + 1)
          \<and> playbackState r \<noteq> Idle)"
proof (intro conjI impI)
  assume c: "isContinuousRef s \<and> u_index utt < int (length (paragraphs s)) - 1"
  then have lt: "u_index utt < int (u_count utt) - 1" using assms(1) by simp
  from c lt show "isAutoAdvancingRef (utterance_onend utt s)"
    and "isSpeaking (utterance_onend utt s) = isSpeaking s"
    and "isContinuousRef (utterance_onend utt s)"
    by (simp_all add: onend_advance)
  from c have d: "dispatch (UtteranceEnd utt) s =
              s\<lparr>activeParagraphIndex := Some (u_index utt + 1),
                isAutoAdvancingRef := False,
                isSpeaking := True,
                calls := calls s @ [ScrollIntoView (u_index utt + 1), Cancel,
                  Speak \<lparr>u_text = paragraphs s ! nat (u_index utt + 1),
                         u_voice = find (\<lambda>v. v = speechVoiceURI (settings s)) (voices s),
                         u_index = u_index utt + 1, u_count = length (paragraphs s)\<rparr>]\<rparr>"
    using assms by (simp add: dispatch_end_advance)
  then show "dispatch (UtteranceEnd utt) s =
              s\<lparr>activeParagraphIndex := Some (u_index utt + 1),
                isAutoAdvancingRef := False,
                isSpeaking := True,
                calls := calls s @ [ScrollIntoView (u_index utt + 1), Cancel,
                  Speak \<lparr>u_text = paragraphs s ! nat (u_index utt + 1),
                         u_voice = find (\<lambda>v. v = speechVoiceURI (settings s)) (voices s),
                         u_index = u_index utt + 1, u_count = length (paragraphs s)\<rparr>]\<rparr>" .
  from d show "activeParagraphIndex (dispatch (UtteranceEnd utt) s) = Some (u_index utt + 1)"
    by simp
  from d c show "playbackState (dispatch (UtteranceEnd utt) s) = SpeakingContinuous"
    by (simp add: playbackState_def)
next
  assume "\<not> isContinuousRef s \<or> u_index utt = int (length (paragraphs s)) - 1"
  then have n: "\<not> (isContinuousRef s \<and> u_index utt < int (u_count utt) - 1)"
    using assms(1) by auto
  then show "dispatch (UtteranceEnd utt) s = s\<lparr>isSpeaking := False, isContinuousRef := False\<rparr>"
    by (rule dispatch_end_finish)
  then show "playbackState (dispatch (UtteranceEnd utt) s) = Idle"
    by (simp add: playbackState_def)
next
  assume "reachable r (Some v)"
  then have c: "consistent r (Some v)" by (rule reachable_consistent)
  then show "u_count v = length (paragraphs r)" and "0 \<le> u_index v"
    and "u_index v < int (length (paragraphs r))"
    and "activeParagraphIndex r = Some (u_index v)"
    and "activeParagraphIndex r \<noteq> Some (u_index v + 1)"
    and "playbackState r \<noteq> Idle"
    by (simp_all add: consistent_def playbackState_def)
qed

theorem C1_utterance_finished_witness:
  "playbackState (dispatch (UtteranceEnd \<lparr>u_text = js ''one'', u_voice = None, u_index = 0, u_count = 3\<rparr>)
      (session0\<lparr>activeParagraphIndex := Some 0, isSpeaking := True, isContinuousRef := True\<rparr>))
     = SpeakingContinuous
   \<and> activeParagraphIndex
       (dispatch (UtteranceEnd \<lparr>u_text = js ''one'', u_voice = None, u_index = 0, u_count = 3\<rparr>)
         (session0\<lparr>activeParagraphIndex := Some 0, isSpeaking := True, isContinuousRef := True\<rparr>))
     = Some 1
   \<and> calls
       (dispatch (UtteranceEnd \<lparr>u_text = js ''one'', u_voice = None, u_index = 0, u_count = 3\<rparr>)
         (session0\<lparr>activeParagraphIndex := Some 0, isSpeaking := True, isContinuousRef := True\<rparr>))
     = [ScrollIntoView 1, Cancel,
        Speak \<lparr>u_text = js ''two'', u_voice = None, u_index = 1, u_count = 3\<rparr>]
   \<and> playbackState (dispatch (UtteranceEnd \<lparr>u_text = js ''three'', u_voice = None, u_index = 2, u_count = 3\<rparr>)
      (session0\<lparr>activeParagraphIndex := Some 2, isSpeaking := True, isContinuousRef := True\<rparr>))
     = Idle
   \<and> engine None (new_calls session0 (dispatch ReadAllButton session0))
     = Some \<lparr>u_text = js ''one'', u_voice = None, u_index = 0, u_count = 3\<rparr>
   \<and> activeParagraphIndex (dispatch ReadAllButton session0) = Some 0"
proof -
  let ?s0 = "session0\<lparr>activeParagraphIndex := Some 0, isSpeaking := True, isContinuousRef := True\<rparr>"
  let ?u0 = "\<lparr>u_text = js ''one'', u_voice = None, u_index = 0, u_count = 3\<rparr>"
  let ?s2 = "session0\<lparr>activeParagraphIndex := Some 2, isSpeaking := True, isContinuousRef := True\<rparr>"
  let ?u2 = "\<lparr>u_text = js ''three'', u_voice = None, u_index = 2, u_count = 3\<rparr>"
  have h0: "u_count ?u0 = length (paragraphs ?s0)" "0 \<le> u_index ?u0"
    "activeParagraphIndex ?s0 \<noteq> Some (u_index ?u0 + 1)"
    by (simp_all add: session0_def)
  have h2: "u_count ?u2 = length (paragraphs ?s2)" "0 \<le> u_index ?u2"
    "activeParagraphIndex ?s2 \<noteq> Some (u_index ?u2 + 1)"
    by (simp_all add: session0_def)
  have c0: "isContinuousRef ?s0 \<and> u_index ?u0 < int (length (paragraphs ?s0)) - 1"
    by (simp add: session0_def)
  have c2: "\<not> isContinuousRef ?s2 \<or> u_index ?u2 = int (length (paragraphs ?s2)) - 1"
    by (simp add: session0_def)
  from C1_utterance_finished [OF h0] c0
  have a: "dispatch (UtteranceEnd ?u0) ?s0 =
              ?s0\<lparr>activeParagraphIndex := Some (u_index ?u0 + 1),
                isAutoAdvancingRef := False,
                isSpeaking := True,
                calls := calls ?s0 @ [ScrollIntoView (u_index ?u0 + 1), Cancel,
                  Speak \<lparr>u_text = paragraphs ?s0 ! nat (u_index ?u0 + 1),
                         u_voice = find (\<lambda>v. v = speechVoiceURI (settings ?s0)) (voices ?s0),
                         u_index = u_index ?u0 + 1, u_count = length (paragraphs ?s0)\<rparr>]\<rparr>"
    and b: "playbackState (dispatch (UtteranceEnd ?u0) ?s0) = SpeakingContinuous"
    by blast+
  from C1_utterance_finished [OF h2] c2
  have c: "playbackState (dispatch (UtteranceEnd ?u2) ?s2) = Idle"
    by blast
  have g: "engine None (new_calls session0 (dispatch ReadAllButton session0)) = Some ?u0"
    by (simp add: dispatch_def commit_def handleSpeakAll_def activeParagraphEffect_def
        scrollIntoView_def speakText_def session0_def new_calls_def Let_def DEFAULT_SETTINGS_def)
  have "reachable (dispatch ReadAllButton session0)
          (engine None (new_calls session0 (dispatch ReadAllButton session0)))"
    by (rule reachable.user [OF reachable.idle]) (simp_all add: session0_def)
  then have "reachable (dispatch ReadAllButton session0) (Some ?u0)"
    by (simp only: g)
  with C1_utterance_finished [OF h0, where r = "dispatch ReadAllButton session0" and v = ?u0]
  have "activeParagraphIndex (dispatch ReadAllButton session0) = Some (u_index ?u0)"
    by blast
  then have k: "activeParagraphIndex (dispatch ReadAllButton session0) = Some 0"
    by simp
  show ?thesis
    unfolding b c g k unfolding a by (simp add: session0_def)
qed

text \<open>
  C2. While playback is \<open>SpeakingSingle\<close> or \<open>SpeakingContinuous\<close>, a manual navigation
  (a click on a paragraph, a navigation key, a spoken \<open>next\<close> or \<open>previous\<close>) that
  changes the active paragraph index, the change not being flagged programmatic, has
  \<open>stop()\<close> run by the effect that follows it: the engine is cancelled, the state is
  \<open>Idle\<close>, both flags are down and no utterance has been submitted, the new index
  being in place. The programmatic advance of continuous playback is the exception:
  it changes the index and playback goes on. In every session reached by events the
  flag is down when an event arrives, so a manual change is never taken for a
  programmatic one.
\<close>

theorem C2_manual_navigation_stops:
  assumes "is_manual e"
    and "playbackState s \<noteq> Idle"
    and "\<not> isAutoAdvancingRef s"
    and "activeParagraphIndex (handler e s) \<noteq> activeParagraphIndex s"
  shows "dispatch e s = handleStop (handler e s)
   \<and> playbackState (dispatch e s) = Idle
   \<and> calls (dispatch e s) = calls (handler e s) @ [Cancel]
   \<and> filter is_speak (calls (dispatch e s)) = filter is_speak (calls s)
   \<and> activeParagraphIndex (dispatch e s) = activeParagraphIndex (handler e s)
   \<and> \<not> isContinuousRef (dispatch e s)
   \<and> \<not> isAutoAdvancingRef (dispatch e s)
   \<and> (\<forall>utt. isContinuousRef s' \<and> u_count utt = length (paragraphs s') \<and> 0 \<le> u_index utt
          \<and> u_index utt < int (length (paragraphs s')) - 1
          \<and> activeParagraphIndex s' \<noteq> Some (u_index utt + 1) \<longrightarrow>
          activeParagraphIndex (dispatch (UtteranceEnd utt) s') = Some (u_index utt + 1)
          \<and> playbackState (dispatch (UtteranceEnd utt) s') = SpeakingContinuous
          \<and> Cancel \<noteq> last (calls (dispatch (UtteranceEnd utt) s')))
   \<and> (reachable r q \<longrightarrow> \<not> isAutoAdvancingRef r)"
proof -
  have y: "reachable r q \<longrightarrow> \<not> isAutoAdvancingRef r"
    using reachable_consistent [of r q] by (simp add: consistent_def)
  from assms(2) have sp: "isSpeaking s" by (simp add: playbackState_def split: if_splits)
  have d: "dispatch e s = handleStop (handler e s)"
    using assms(1) sp assms(3,4) by (rule dispatch_manual)
  have f: "filter is_speak (calls (handleStop (handler e s))) = filter is_speak (calls s)"
    using manual_calls [OF assms(1), of s] by (simp add: handleStop_def)
  have x: "\<forall>utt. isContinuousRef s' \<and> u_count utt = length (paragraphs s') \<and> 0 \<le> u_index utt
          \<and> u_index utt < int (length (paragraphs s')) - 1
          \<and> activeParagraphIndex s' \<noteq> Some (u_index utt + 1) \<longrightarrow>
          activeParagraphIndex (dispatch (UtteranceEnd utt) s') = Some (u_index utt + 1)
          \<and> playbackState (dispatch (UtteranceEnd utt) s') = SpeakingContinuous
          \<and> Cancel \<noteq> last (calls (dispatch (UtteranceEnd utt) s'))"
    by (simp add: dispatch_end_advance playbackState_def)
  show ?thesis
    unfolding d using f x y by (simp add: handleStop_def playbackState_def)
qed

theorem C2_manual_navigation_stops_witness:
  "is_manual (ParagraphClick 0)
   \<and> playbackState (session0\<lparr>activeParagraphIndex := Some 2, isSpeaking := True,
         isContinuousRef := True\<rparr>) = SpeakingContinuous
   \<and> dispatch (ParagraphClick 0)
        (session0\<lparr>activeParagraphIndex := Some 2, isSpeaking := True, isContinuousRef := True\<rparr>)
      = session0\<lparr>activeParagraphIndex := Some 0, calls := [Cancel]\<rparr>
   \<and> playbackState (dispatch (ParagraphClick 0)
        (session0\<lparr>activeParagraphIndex := Some 2, isSpeaking := True, isContinuousRef := True\<rparr>))
      = Idle
   \<and> playbackState (dispatch
        (UtteranceEnd \<lparr>u_text = js ''one'', u_voice = None, u_index = 0, u_count = 3\<rparr>)
        (session0\<lparr>activeParagraphIndex := Some 0, isSpeaking := True, isContinuousRef := True\<rparr>))
      = SpeakingContinuous
   \<and> isAutoAdvancingRef (dispatch ReadAllButton session0) = False"
proof -
  let ?s = "session0\<lparr>activeParagraphIndex := Some 2, isSpeaking := True, isContinuousRef := True\<rparr>"
  let ?s' = "session0\<lparr>activeParagraphIndex := Some 0, isSpeaking := True, isContinuousRef := True\<rparr>"
  let ?u = "\<lparr>u_text = js ''one'', u_voice = None, u_index = 0, u_count = 3\<rparr>"
  have m: "is_manual (ParagraphClick 0)" by simp
  have p: "playbackState ?s \<noteq> Idle" and p': "playbackState ?s = SpeakingContinuous"
    by (simp_all add: playbackState_def)
  have a: "\<not> isAutoAdvancingRef ?s" by (simp add: session0_def)
  have c: "activeParagraphIndex (handler (ParagraphClick 0) ?s) \<noteq> activeParagraphIndex ?s"
    by (simp add: handleParagraphClick_def)
  have u: "isContinuousRef ?s' \<and> u_count ?u = length (paragraphs ?s') \<and> 0 \<le> u_index ?u
          \<and> u_index ?u < int (length (paragraphs ?s')) - 1
          \<and> activeParagraphIndex ?s' \<noteq> Some (u_index ?u + 1)"
    by (simp add: session0_def)
  have rr: "reachable (dispatch ReadAllButton session0)
          (engine None (new_calls session0 (dispatch ReadAllButton session0)))"
    by (rule reachable.user [OF reachable.idle]) (simp_all add: session0_def)
  note c2 = C2_manual_navigation_stops [OF m p a c, where s' = ?s'
      and r = "dispatch ReadAllButton session0"
      and q = "engine None (new_calls session0 (dispatch ReadAllButton session0))"]
  from c2 rr have fl: "isAutoAdvancingRef (dispatch ReadAllButton session0) = False"
    by blast
  from c2 have d: "dispatch (ParagraphClick 0) ?s = handleStop (handler (ParagraphClick 0) ?s)"
    and i: "playbackState (dispatch (ParagraphClick 0) ?s) = Idle"
    by blast+
  from c2 u have e: "playbackState (dispatch (UtteranceEnd ?u) ?s') = SpeakingContinuous"
    by blast
  have "handleStop (handler (ParagraphClick 0) ?s)
        = session0\<lparr>activeParagraphIndex := Some 0, calls := [Cancel]\<rparr>"
    by (simp add: handleStop_def handleParagraphClick_def session0_def)
  with d i e m p' fl show ?thesis by simp
qed

text \<open>
  C6. For every final transcript the interpreter records the transcript and runs the
  action of the first rule, in the order \<open>next\<close>; \<open>previous\<close> or \<open>back\<close>; \<open>read all\<close>
  or \<open>start reading\<close>; \<open>stop\<close> or \<open>pause\<close>; then the magnifier, focus-mode and bionic
  switches, one of whose phrases the transcript contains as a substring: that action
  and no other. A transcript that matches no rule is recorded and nothing else
  changes. The transcript \<open>please read all of this\<close> runs \<open>speakAll\<close>, no navigation;
  a transcript with both \<open>stop\<close> and \<open>next\<close> runs \<open>next\<close>.
\<close>

theorem C6_voice_command_priority:
  "processCommand command s =
     (case first_match command of
        None \<Rightarrow> s\<lparr>lastVoiceCommand := command\<rparr>
      | Some a \<Rightarrow> run_action a (s\<lparr>lastVoiceCommand := command\<rparr>))
   \<and> lastVoiceCommand (processCommand command s) = command
   \<and> js_includes command phrase = (\<exists>u v. command = u @ phrase @ v)
   \<and> first_match (js ''please read all of this'') = Some ActSpeakAll
   \<and> processCommand (js ''please read all of this'') s
       = handleSpeakAll (s\<lparr>lastVoiceCommand := js ''please read all of this''\<rparr>)
   \<and> first_match (js ''stop then next'') = Some ActNext
   \<and> first_match (js ''good morning'') = None
   \<and> processCommand (js ''good morning'') s = s\<lparr>lastVoiceCommand := js ''good morning''\<rparr>"
proof -
  have a: "first_match (js ''please read all of this'') = Some ActSpeakAll"
    by (rule read_all_example)
  have b: "first_match (js ''stop then next'') = Some ActNext" by code_simp
  have c: "first_match (js ''good morning'') = None" by code_simp
  have p: "processCommand command s =
     (case first_match command of
        None \<Rightarrow> s\<lparr>lastVoiceCommand := command\<rparr>
      | Some a \<Rightarrow> run_action a (s\<lparr>lastVoiceCommand := command\<rparr>))"
    by (rule processCommand_first_match)
  have l: "lastVoiceCommand (processCommand command s) = command"
    by (rule lastVoiceCommand_processCommand)
  have i: "js_includes command phrase = (\<exists>u v. command = u @ phrase @ v)"
    by (rule js_includes_iff)
  have e1: "processCommand (js ''please read all of this'') s
       = handleSpeakAll (s\<lparr>lastVoiceCommand := js ''please read all of this''\<rparr>)"
    by (simp add: processCommand_first_match a)
  have e2: "processCommand (js ''good morning'') s = s\<lparr>lastVoiceCommand := js ''good morning''\<rparr>"
    by (simp add: processCommand_first_match c)
  show ?thesis
    by (intro conjI) (fact p l i a b c e1 e2)+
qed

text \<open>
  C8 fails on the code when something is marked between the choice of the file and
  the arrival of its text. \<open>handleFileUpload\<close> clears the annotations and the
  highlights at once, the text is read asynchronously, and the effect on the content
  resets the paragraph list, the selection and the playback only. Here the file is
  chosen, then the first three characters of paragraph 0 (\<open>one\<close>) are highlighted
  and a note is put on it, then the text \<open>new text\<close> arrives: the paragraph list is
  rebuilt, the selection is null and playback is \<open>Idle\<close>, but the highlight and the
  note of the previous document are still in the stores, on paragraph 0 of the new
  one, where the range \<open>[0, 3)\<close> now covers \<open>new\<close>.
\<close>

theorem C8_stale_highlight_survives:
  "paragraphs
     (reader_onload (js ''new text'')
       (updateAnnotation 0 (js ''note'')
         (addHighlight 0 0 3 (js ''one'') 7
           (handleFileUpload (session0\<lparr>activeParagraphIndex := Some 0\<rparr>)))))
     = [js ''new text'']
   \<and> activeParagraphIndex
     (reader_onload (js ''new text'')
       (updateAnnotation 0 (js ''note'')
         (addHighlight 0 0 3 (js ''one'') 7
           (handleFileUpload (session0\<lparr>activeParagraphIndex := Some 0\<rparr>)))))
     = None
   \<and> playbackState
     (reader_onload (js ''new text'')
       (updateAnnotation 0 (js ''note'')
         (addHighlight 0 0 3 (js ''one'') 7
           (handleFileUpload (session0\<lparr>activeParagraphIndex := Some 0\<rparr>)))))
     = Idle
   \<and> highlights_at (highlights
     (reader_onload (js ''new text'')
       (updateAnnotation 0 (js ''note'')
         (addHighlight 0 0 3 (js ''one'') 7
           (handleFileUpload (session0\<lparr>activeParagraphIndex := Some 0\<rparr>)))))) 0
     = [\<lparr>hl_start = 0, hl_end = 3, hl_text = js ''one'', hl_id = js ''7''\<rparr>]
   \<and> annotations
     (reader_onload (js ''new text'')
       (updateAnnotation 0 (js ''note'')
         (addHighlight 0 0 3 (js ''one'') 7
           (handleFileUpload (session0\<lparr>activeParagraphIndex := Some 0\<rparr>))))) 0
     = Some (js ''note'')
   \<and> js_slice (js ''new text'') 0 3 = js ''new''"
proof -
  let ?s = "updateAnnotation 0 (js ''note'')
         (addHighlight 0 0 3 (js ''one'') 7
           (handleFileUpload (session0\<lparr>activeParagraphIndex := Some 0\<rparr>)))"
  have ne: "js ''new text'' \<noteq> content ?s"
    by (simp add: updateAnnotation_def addHighlight_def handleFileUpload_def Let_def
        session0_def js_def)
  have sp: "splitText (js ''new text'') = [js ''new text'']"
    by (simp add: splitText_def js_def newline_def js_trim_def is_space_def)
  have ts: "toString 7 = js ''7''" by (simp add: toString.simps js_def)
  have sl: "js_slice (js ''new text'') 0 3 = js ''new''"
    by (simp add: js_slice_def Let_def js_def)
  show ?thesis
    unfolding reader_onload_changed [OF ne] sl
    by (simp add: sp ts playbackState_def updateAnnotation_def addHighlight_def
        handleFileUpload_def highlights_at_def Let_def)
qed

text \<open>
  C4, as the specification states it, fails: \<open>addHighlight\<close> has no failing branch. On
  the paragraph \<open>one\<close> the range with \<open>start = 5\<close> and \<open>end = 2\<close>, which violates
  \<open>0 \<le> start < end \<le> 3\<close>, is stored as given.
\<close>

theorem C4_counterexample:
  "\<not> range_ok (paragraphs session0 ! 0) 5 2
   \<and> highlights_at (highlights session0) 0 = []
   \<and> highlights_at (highlights (addHighlight 0 5 2 (js ''x'') 1700000000000 session0)) 0
       = [\<lparr>hl_start = 5, hl_end = 2, hl_text = js ''x'', hl_id = js ''1700000000000''\<rparr>]"
proof -
  have "toString 1700000000000 = js ''1700000000000''"
    by (simp add: toString.simps js_def)
  then show ?thesis
    by (simp add: range_ok_def session0_def addHighlight_def highlights_at_def Let_def)
qed

text \<open>
  C4, amended. \<open>addHighlight(paragraphIndex, start, end, text)\<close> validates nothing and
  never fails: for every input it appends the highlight with the given \<open>start\<close>,
  \<open>end\<close> and \<open>text\<close> to the list of the paragraph and leaves the other paragraphs and
  the rest of the session as they are. The highlights of the paragraph all satisfy
  \<open>0 \<le> start < end \<le> len(text)\<close> afterwards exactly when they did before and the
  range passed does: the invariant of the store is the caller's to keep.
\<close>

theorem C4_addHighlight_appends:
  "highlights_at (highlights (addHighlight index start end' t now s)) index
     = highlights_at (highlights s) index
       @ [\<lparr>hl_start = start, hl_end = end', hl_text = t, hl_id = toString now\<rparr>]
   \<and> (\<forall>j. j \<noteq> index \<longrightarrow>
         highlights (addHighlight index start end' t now s) j = highlights s j)
   \<and> addHighlight index start end' t now s
       = s\<lparr>highlights := highlights (addHighlight index start end' t now s)\<rparr>
   \<and> (list_all (\<lambda>h. range_ok para (hl_start h) (hl_end h))
         (highlights_at (highlights (addHighlight index start end' t now s)) index)
       \<longleftrightarrow> list_all (\<lambda>h. range_ok para (hl_start h) (hl_end h))
             (highlights_at (highlights s) index)
           \<and> range_ok para start end')"
  by (auto simp: addHighlight_def highlights_at_def Let_def)

theorem C4_addHighlight_appends_witness:
  "highlights (addHighlight 0 0 3 (js ''one'') 5 session0) 1 = highlights session0 1
   \<and> list_all (\<lambda>h. range_ok (js ''one'') (hl_start h) (hl_end h))
         (highlights_at (highlights (addHighlight 0 0 3 (js ''one'') 5 session0)) 0)
   \<and> \<not> list_all (\<lambda>h. range_ok (js ''one'') (hl_start h) (hl_end h))
         (highlights_at (highlights (addHighlight 0 5 2 (js ''x'') 5 session0)) 0)"
proof -
  have ok: "range_ok (js ''one'') 0 3" and bad: "\<not> range_ok (js ''one'') 5 2"
    by (simp_all add: range_ok_def js_def)
  have e: "list_all (\<lambda>h. range_ok (js ''one'') (hl_start h) (hl_end h))
             (highlights_at (highlights session0) 0)"
    by (simp add: session0_def highlights_at_def)
  have n: "(1::int) \<noteq> 0" by simp
  from C4_addHighlight_appends [of 0 0 3 "js ''one''" 5 session0 "js ''one''"] n
  have 1: "highlights (addHighlight 0 0 3 (js ''one'') 5 session0) 1 = highlights session0 1"
    by blast
  from C4_addHighlight_appends [of 0 0 3 "js ''one''" 5 session0 "js ''one''"] ok e
  have 2: "list_all (\<lambda>h. range_ok (js ''one'') (hl_start h) (hl_end h))
         (highlights_at (highlights (addHighlight 0 0 3 (js ''one'') 5 session0)) 0)"
    by blast
  from C4_addHighlight_appends [of 0 5 2 "js ''x''" 5 session0 "js ''one''"] bad
  have 3: "\<not> list_all (\<lambda>h. range_ok (js ''one'') (hl_start h) (hl_end h))
         (highlights_at (highlights (addHighlight 0 5 2 (js ''x'') 5 session0)) 0)"
    by blast
  from 1 2 3 show ?thesis by blast
qed

text \<open>
  C9 fails on the keyboard shortcut. The toolbar buttons clamp the font size to 12 and
  64, and \<open>Ctrl\<close> or \<open>Cmd\<close> with \<open>-\<close> clamps to 12, but \<open>Ctrl\<close> or \<open>Cmd\<close> with \<open>=\<close> or
  \<open>+\<close> clamps to 72: from 64 it gives 66, and from there the toolbar's increase
  button goes back to 64.
\<close>

theorem C9_keyboard_zoom_exceeds_64:
  "fontSize (settings (session0\<lparr>settings := DEFAULT_SETTINGS\<lparr>fontSize := 64\<rparr>\<rparr>)) = 64
   \<and> fontSize (settings (handleKey
        \<lparr>code = js ''Equal'', key = js ''='', ctrlKey = True, metaKey = False, targetTag = js ''BODY''\<rparr>
        (session0\<lparr>settings := DEFAULT_SETTINGS\<lparr>fontSize := 64\<rparr>\<rparr>))) = 66
   \<and> fontSize (settings (increaseFontSize
        (session0\<lparr>settings := DEFAULT_SETTINGS\<lparr>fontSize := 64\<rparr>\<rparr>))) = 64
   \<and> fontSize (settings (increaseFontSize (handleKey
        \<lparr>code = js ''Equal'', key = js ''='', ctrlKey = True, metaKey = False, targetTag = js ''BODY''\<rparr>
        (session0\<lparr>settings := DEFAULT_SETTINGS\<lparr>fontSize := 64\<rparr>\<rparr>)))) = 64"
  by (simp add: handleKey_def increaseFontSize_def onUpdateSettings_def Let_def js_def)

end
